theory Spec2Isabelle
  imports Main "HOL-Library.DAList"
begin

section \<open>Data model\<close>

text \<open>
  The simulator of \<^verbatim>\<open>gc_visualizer_slides_25_36.jsx\<close>: a heap is an array of objects,
  each with a start address, a size and pointer fields. The TypeScript type is
  \<^verbatim>\<open>type Obj = { id; addr; size; fields: (number | null)[]; marked?: boolean;
  newAddr?: number | null }\<close>.
  Numbers are integers here (the program only adds sizes to addresses). The optional
  property \<^verbatim>\<open>marked\<close> is read only through its truthiness and \<^verbatim>\<open>newAddr\<close> only
  through \<^verbatim>\<open>!= null\<close>, so an absent \<^verbatim>\<open>marked\<close> is \<open>False\<close> and an absent or null
  \<^verbatim>\<open>newAddr\<close> is \<open>None\<close>. The fields \<^verbatim>\<open>id\<close>, \<^verbatim>\<open>size\<close> and \<^verbatim>\<open>fields\<close> carry the suffix
  \<open>_of\<close> because the plain names are constants of HOL.
\<close>

record Obj =
  id_of :: string
  addr :: int
  size_of :: int
  fields_of :: "int option list"
  marked :: bool
  newAddr :: "int option"

datatype Phase = Idle | Mark | Prepare | Crunch

record Scenario =
  sc_name :: string
  memorySize :: int
  sc_root :: "int option"
  sc_objects :: "Obj list"

text \<open>
  A JavaScript \<^verbatim>\<open>Map\<close> keeps one entry per key, in insertion order; \<^verbatim>\<open>set\<close> on a key
  that is present replaces the value in place. That is the type of association lists
  with distinct keys and its \<open>update\<close>.
\<close>

type_synonym ('k, 'v) jsmap = "('k, 'v) alist"

abbreviation map_set :: "'k \<Rightarrow> 'v \<Rightarrow> ('k, 'v) jsmap \<Rightarrow> ('k, 'v) jsmap" where
  "map_set \<equiv> DAList.update"

abbreviation map_get :: "('k, 'v) jsmap \<Rightarrow> 'k \<Rightarrow> 'v option" where
  "map_get \<equiv> DAList.lookup"

definition map_has :: "('k, 'v) jsmap \<Rightarrow> 'k \<Rightarrow> bool" where
  "map_has m k = (map_get m k \<noteq> None)"

abbreviation map_entries :: "('k, 'v) jsmap \<Rightarrow> ('k \<times> 'v) list" where
  "map_entries \<equiv> DAList.impl_of"

text \<open>\<^verbatim>\<open>new Map(entries)\<close>: the entries are set one after the other.\<close>

definition new_Map :: "('k \<times> 'v) list \<Rightarrow> ('k, 'v) jsmap" where
  "new_Map es = fold (\<lambda>e m. map_set (fst e) (snd e) m) es DAList.empty"

text \<open>
  The snapshot of the history (\<^verbatim>\<open>type Snap\<close>) stores the mapping as the array of
  its entries.
\<close>

record Snap =
  snap_objects :: "Obj list"
  snap_root :: "int option"
  snap_phase :: Phase
  snap_mapping :: "(int \<times> int) list"
  snap_nextFree :: int

text \<open>The state of the component \<^verbatim>\<open>GCVisualizer\<close>: its seven \<^verbatim>\<open>useState\<close> cells.\<close>

record State =
  scenario :: Scenario
  objects :: "Obj list"
  root :: "int option"
  phase :: Phase
  mapping :: "(int, int) jsmap"
  nextFree :: int
  history :: "Snap list"

text \<open>
  The error kinds are those the specification names. The source declares no error and
  has no \<^verbatim>\<open>throw\<close>: a command that does not apply returns early. A command is
  modelled with the result type \<open>error + State\<close>, \<open>Inl\<close> for an exception, so that what
  the commands signal can be stated. \<open>UndefinedAddress\<close> is not an exception of the
  program: it stands for the run of \<^verbatim>\<open>crunch\<close> in which \<^verbatim>\<open>oldToNew.get(o.addr)!\<close> is
  \<^verbatim>\<open>undefined\<close>, whose result has an object without a numeric address and so is no
  value of \<open>Obj list\<close>.
\<close>

datatype error =
  MalformedLayoutError | InsufficientSpaceError | InvalidPhaseError | NoHistoryError
  | UndefinedAddress

section \<open>Helpers\<close>

text \<open>
  \<^verbatim>\<open>JSON.parse(JSON.stringify(x))\<close> on arrays of objects made of strings, integers,
  booleans and null gives an equal value that shares nothing with \<open>x\<close>. Values of HOL
  share nothing, so the copy is the value.
\<close>

definition deepClone :: "'a \<Rightarrow> 'a" where
  "deepClone x = x"

text \<open>
  \<^verbatim>\<open>[...arr].sort((a, b) => a.addr - b.addr)\<close>: a stable sort by address of a copy of
  the array. The copy holds the same objects: \<open>sortByAddr_refs\<close> gives the sorted array
  as references (indices) into the array \<open>arr\<close>, for the caller that writes to the
  objects through it.
\<close>

definition sortByAddr :: "Obj list \<Rightarrow> Obj list" where
  "sortByAddr arr = sort_key addr arr"

definition sortByAddr_refs :: "Obj list \<Rightarrow> nat list" where
  "sortByAddr_refs arr = sort_key (\<lambda>i. addr (arr ! i)) [0..<length arr]"

section \<open>Phase 1: mark\<close>

text \<open>
  \<^verbatim>\<open>markReachable\<close> builds \<^verbatim>\<open>new Map(objects.map(o => [o.addr, o]))\<close>; the values
  are the objects of the array themselves, here their indices. The inner function
  \<^verbatim>\<open>dfs\<close> works on the set \<^verbatim>\<open>visited\<close> and writes \<^verbatim>\<open>marked\<close> into the objects: its
  state is the pair of the set and the array. \<open>dfs_fields\<close> is the loop
  \<^verbatim>\<open>for (const p of o.fields) if (p != null) dfs(p)\<close>.
\<close>

function dfs :: "(int, nat) jsmap \<Rightarrow> int option \<Rightarrow> int set \<times> Obj list \<Rightarrow> int set \<times> Obj list"
  and dfs_fields :: "(int, nat) jsmap \<Rightarrow> int option list \<Rightarrow> int set \<times> Obj list \<Rightarrow> int set \<times> Obj list"
where
  "dfs mp None st = st"
| "dfs mp (Some a) (visited, objs) =
     (case map_get mp a of
        None \<Rightarrow> (visited, objs)
      | Some i \<Rightarrow>
          if a \<in> visited then (visited, objs)
          else dfs_fields mp (fields_of (objs ! i))
                 (insert a visited, objs[i := (objs ! i)\<lparr>marked := True\<rparr>]))"
| "dfs_fields mp [] st = st"
| "dfs_fields mp (p # ps) st =
     dfs_fields mp ps (case p of None \<Rightarrow> st | Some q \<Rightarrow> dfs mp (Some q) st)"
  by pat_completeness auto

lemma dfs_visited_grows_dom:
  "dfs_dfs_fields_dom (Inl (mp, a, st)) \<Longrightarrow> fst st \<subseteq> fst (dfs mp a st)"
  "dfs_dfs_fields_dom (Inr (mp, ps, st)) \<Longrightarrow> fst st \<subseteq> fst (dfs_fields mp ps st)"
proof (induction mp a st and mp ps st rule: dfs_dfs_fields.pinduct)
  case (1 mp st)
  then show ?case by (simp add: dfs.psimps)
next
  case (2 mp a visited objs)
  then show ?case
    by (auto simp: dfs.psimps split: option.splits)
next
  case (3 mp st)
  then show ?case by (simp add: dfs_fields.psimps)
next
  case (4 mp p ps st)
  then show ?case
    by (cases p) (auto simp: dfs_fields.psimps)
qed

lemma map_get_in_keys: "map_get mp a = Some i \<Longrightarrow> a \<in> fst ` set (map_entries mp)"
  by (metis DAList.lookup.rep_eq map_of_SomeD fst_conv image_eqI)

lemma card_unvisited_less:
  assumes "a \<in> fst ` set es" "a \<notin> vis"
  shows "card (fst ` set es - insert a vis) < card (fst ` set es - vis)"
proof -
  have "fst ` set es - insert a vis \<subset> fst ` set es - vis"
    using assms by auto
  then show ?thesis
    by (intro psubset_card_mono) auto
qed

lemma card_unvisited_le:
  assumes "vis \<subseteq> vis'"
  shows "card (fst ` set es - vis') \<le> card (fst ` set es - vis)"
  using assms by (intro card_mono) auto

termination dfs
proof (relation "inv_image (less_than <*lex*> less_than)
     (\<lambda>x. case x of
        Inl (mp, a, (vis, objs)) \<Rightarrow> (card (fst ` set (map_entries mp) - vis), 0::nat)
      | Inr (mp, ps, (vis, objs)) \<Rightarrow>
          (card (fst ` set (map_entries mp) - vis), Suc (length ps)))", goal_cases)
  case 1
  then show ?case by (intro wf_inv_image wf_lex_prod wf_less_than)
next
  case (2 mp a visited objs i)
  from 2(1) have "a \<in> fst ` set (map_entries mp)" by (rule map_get_in_keys)
  from card_unvisited_less[OF this 2(2)] show ?case
    by (simp del: card_Diff_insert)
next
  case (3 mp p ps st q)
  then show ?case by (cases st) simp
next
  case (4 mp p ps st)
  show ?case
  proof (cases p)
    case None
    then show ?thesis by (cases st) simp
  next
    case (Some q)
    obtain vis objs where st: "st = (vis, objs)" by (cases st)
    obtain vis' objs' where r: "dfs mp (Some q) st = (vis', objs')"
      by (cases "dfs mp (Some q) st")
    from 4 Some have "dfs_dfs_fields_dom (Inl (mp, Some q, st))" by simp
    from dfs_visited_grows_dom(1)[OF this] st r have "vis \<subseteq> vis'" by simp
    from card_unvisited_le[OF this, of "map_entries mp"]
    show ?thesis using Some st r by auto
  qed
qed

text \<open>\<^verbatim>\<open>new Map(objects.map(o => [o.addr, o]))\<close>, an object being its index in the array.\<close>

definition obj_map :: "Obj list \<Rightarrow> (int, nat) jsmap" where
  "obj_map objs = new_Map (map (\<lambda>i. (addr (objs ! i), i)) [0..<length objs])"

definition markReachable :: "Obj list \<Rightarrow> int option \<Rightarrow> Obj list" where
  "markReachable objs rootAddr =
     (let mp = obj_map objs
      in snd (case rootAddr of
                None \<Rightarrow> ({}, objs)
              | Some r \<Rightarrow> dfs mp (Some r) ({}, objs)))"

section \<open>Phase 2: prepare\<close>

text \<open>
  The first loop of \<^verbatim>\<open>prepareCompaction\<close> runs over the sorted references with the
  cursor \<^verbatim>\<open>newAddr\<close> (here \<open>cur\<close>) and the map \<^verbatim>\<open>oldToNew\<close>; \<^verbatim>\<open>o.newAddr = newAddr\<close>
  writes into the object of the array \<^verbatim>\<open>objects\<close>.
\<close>

fun plan_loop :: "nat list \<Rightarrow> Obj list \<times> (int, int) jsmap \<times> int \<Rightarrow> Obj list \<times> (int, int) jsmap \<times> int" where
  "plan_loop [] st = st"
| "plan_loop (r # rs) (objs, oldToNew, cur) =
     (if marked (objs ! r)
      then plan_loop rs
             (objs[r := (objs ! r)\<lparr>newAddr := Some cur\<rparr>],
              map_set (addr (objs ! r)) cur oldToNew,
              cur + size_of (objs ! r))
      else plan_loop rs (objs, oldToNew, cur))"

text \<open>\<^verbatim>\<open>cell != null && oldToNew.has(cell) ? oldToNew.get(cell)! : cell\<close>\<close>

definition retarget :: "(int, int) jsmap \<Rightarrow> int option \<Rightarrow> int option" where
  "retarget oldToNew cell =
     (case cell of
        None \<Rightarrow> None
      | Some a \<Rightarrow> if map_has oldToNew a then map_get oldToNew a else Some a)"

record Prepared =
  p_objects :: "Obj list"
  p_oldToNew :: "(int, int) jsmap"
  p_newRoot :: "int option"
  p_nextFree :: int

definition prepareCompaction :: "Obj list \<Rightarrow> int \<Rightarrow> int option \<Rightarrow> Prepared" where
  "prepareCompaction objs memSize rootAddr =
     (case plan_loop (sortByAddr_refs objs) (objs, DAList.empty, 0) of
        (objs1, oldToNew, cur) \<Rightarrow>
          \<lparr>p_objects = map (\<lambda>ob. ob\<lparr>fields_of := map (retarget oldToNew) (fields_of ob)\<rparr>) objs1,
           p_oldToNew = oldToNew,
           p_newRoot = (case rootAddr of
                          None \<Rightarrow> None
                        | Some r \<Rightarrow> if map_has oldToNew r then map_get oldToNew r else None),
           p_nextFree = cur\<rparr>)"

section \<open>Phase 3: crunch\<close>

text \<open>
  The loop of \<^verbatim>\<open>crunch\<close> over the sorted array, with the array \<^verbatim>\<open>kept\<close>. The pushed object
  is a copy \<^verbatim>\<open>{ ...o, addr: na, newAddr: null, marked: false }\<close>.
\<close>

fun crunch_loop :: "Obj list \<Rightarrow> (int, int) jsmap \<Rightarrow> Obj list \<Rightarrow> error + Obj list" where
  "crunch_loop [] oldToNew kept = Inr kept"
| "crunch_loop (ob # obs) oldToNew kept =
     (if \<not> marked ob then crunch_loop obs oldToNew kept
      else case map_get oldToNew (addr ob) of
             None \<Rightarrow> Inl UndefinedAddress
           | Some na \<Rightarrow>
               crunch_loop obs oldToNew
                 (kept @ [ob\<lparr>addr := na, newAddr := None, marked := False\<rparr>]))"

definition crunch :: "Obj list \<Rightarrow> (int, int) jsmap \<Rightarrow> error + Obj list" where
  "crunch objs oldToNew = crunch_loop (sortByAddr objs) oldToNew []"

section \<open>The component: scenario, history and commands\<close>

definition makeDefaultScenario :: Scenario where
  "makeDefaultScenario =
     \<lparr>sc_name = ''A->B->C with garbage D'',
      memorySize = 36,
      sc_root = Some 2,
      sc_objects =
        [\<lparr>id_of = ''A'', addr = 2, size_of = 4, fields_of = [Some 8, Some 14, None],
          marked = False, newAddr = None\<rparr>,
         \<lparr>id_of = ''B'', addr = 8, size_of = 3, fields_of = [Some 14, None],
          marked = False, newAddr = None\<rparr>,
         \<lparr>id_of = ''C'', addr = 14, size_of = 3, fields_of = [None, None],
          marked = False, newAddr = None\<rparr>,
         \<lparr>id_of = ''D'', addr = 22, size_of = 5, fields_of = [None, None, None, None],
          marked = False, newAddr = None\<rparr>]\<rparr>"

text \<open>\<^verbatim>\<open>objects.reduce((m, o) => Math.max(m, o.addr + o.size), 0)\<close>\<close>

definition lastEnd :: "Obj list \<Rightarrow> int" where
  "lastEnd objs = foldl (\<lambda>m ob. max m (addr ob + size_of ob)) 0 objs"

text \<open>The initial values of the state cells, for a scenario; \<^verbatim>\<open>reset\<close> sets them again.\<close>

definition init_state :: "Scenario \<Rightarrow> State" where
  "init_state sc =
     \<lparr>scenario = sc,
      objects = deepClone (sc_objects sc),
      root = sc_root sc,
      phase = Idle,
      mapping = new_Map [],
      nextFree = lastEnd (sc_objects sc),
      history = []\<rparr>"

definition reset :: "State \<Rightarrow> error + State" where
  "reset s = Inr (init_state makeDefaultScenario)"

definition takeSnap :: "State \<Rightarrow> Snap" where
  "takeSnap s =
     \<lparr>snap_objects = deepClone (objects s),
      snap_root = root s,
      snap_phase = phase s,
      snap_mapping = map_entries (mapping s),
      snap_nextFree = nextFree s\<rparr>"

definition pushHistory :: "State \<Rightarrow> State" where
  "pushHistory s = s\<lparr>history := history s @ [takeSnap s]\<rparr>"

definition goPrev :: "State \<Rightarrow> error + State" where
  "goPrev s =
     (if length (history s) = 0 then Inr s
      else
        let lst = history s ! (length (history s) - 1)
        in Inr (s\<lparr>objects := deepClone (snap_objects lst),
                  root := snap_root lst,
                  phase := snap_phase lst,
                  mapping := new_Map (snap_mapping lst),
                  nextFree := snap_nextFree lst,
                  history := butlast (history s)\<rparr>))"

definition doMark :: "State \<Rightarrow> error + State" where
  "doMark s =
     (if phase s \<noteq> Idle then Inr s
      else
        let s1 = pushHistory s;
            objs = markReachable (deepClone (objects s)) (root s)
        in Inr (s1\<lparr>objects := objs, phase := Mark\<rparr>))"

definition doPrepare :: "State \<Rightarrow> error + State" where
  "doPrepare s =
     (if phase s \<noteq> Mark then Inr s
      else
        let s1 = pushHistory s;
            p = prepareCompaction (deepClone (objects s)) (memorySize (scenario s)) (root s)
        in Inr (s1\<lparr>objects := p_objects p,
                   mapping := p_oldToNew p,
                   root := p_newRoot p,
                   nextFree := p_nextFree p,
                   phase := Prepare\<rparr>))"

definition doCrunch :: "State \<Rightarrow> error + State" where
  "doCrunch s =
     (if phase s \<noteq> Prepare then Inr s
      else
        let s1 = pushHistory s
        in case crunch (deepClone (objects s)) (mapping s) of
             Inl e \<Rightarrow> Inl e
           | Inr objs \<Rightarrow> Inr (s1\<lparr>objects := objs, phase := Crunch\<rparr>))"

definition autoRun :: "State \<Rightarrow> error + State" where
  "autoRun s =
     (if phase s = Idle then doMark s
      else if phase s = Mark then doPrepare s
      else if phase s = Prepare then doCrunch s
      else Inr s)"

definition changeRoot :: "int \<Rightarrow> State \<Rightarrow> error + State" where
  "changeRoot a s = (if phase s = Idle then Inr (s\<lparr>root := Some a\<rparr>) else Inr s)"

text \<open>
  \<^verbatim>\<open>addGarbage\<close> names the new object \<^verbatim>\<open>G\<close> followed by a random two-digit number; the
  name is the parameter \<open>gid\<close>.
\<close>

definition addGarbage :: "string \<Rightarrow> State \<Rightarrow> error + State" where
  "addGarbage gid s =
     (if phase s \<noteq> Idle then Inr s
      else
        let le = lastEnd (objects s);
            free = memorySize (scenario s) - le
        in if free < 3 then Inr s
           else
             let g = \<lparr>id_of = gid, addr = le + 1, size_of = 3, fields_of = [None, None],
                      marked = False, newAddr = None\<rparr>
             in Inr (s\<lparr>objects := sortByAddr (objects s @ [g])\<rparr>))"

text \<open>Running one command after another; an exception ends the run.\<close>

definition and_then :: "error + 'a \<Rightarrow> ('a \<Rightarrow> error + 'b) \<Rightarrow> error + 'b" where
  "and_then r f = (case r of Inl e \<Rightarrow> Inl e | Inr x \<Rightarrow> f x)"

section \<open>Notions of the statements and of the proofs\<close>

subsection \<open>Reachability\<close>

text \<open>
  The addresses reachable from the address \<open>r\<close>: \<open>r\<close> itself when the heap has an
  object there, and every address of an object that a field of a reachable object
  holds. A field value at which no object starts leads nowhere.
\<close>

inductive reachable :: "Obj list \<Rightarrow> int \<Rightarrow> int \<Rightarrow> bool" for objs :: "Obj list" and r :: int where
  reach_root: "ob \<in> set objs \<Longrightarrow> addr ob = r \<Longrightarrow> reachable objs r r"
| reach_hop: "reachable objs r a \<Longrightarrow> ob \<in> set objs \<Longrightarrow> addr ob = a \<Longrightarrow>
     Some b \<in> set (fields_of ob) \<Longrightarrow> tgt \<in> set objs \<Longrightarrow> addr tgt = b \<Longrightarrow>
     reachable objs r b"

text \<open>
  The same in terms of the program, for a map \<open>mp\<close> from addresses to objects:
  \<open>succs\<close> are the addresses that the loop over the fields of the object at an address
  goes into, \<open>edges\<close> is the relation of the two. \<open>skel\<close> is an array of objects
  without its marks.
\<close>

definition succs :: "(int, nat) jsmap \<Rightarrow> Obj list \<Rightarrow> int \<Rightarrow> int set" where
  "succs mp objs a =
     {b. \<exists>i. map_get mp a = Some i \<and> Some b \<in> set (fields_of (objs ! i)) \<and>
              map_get mp b \<noteq> None}"

definition edges :: "(int, nat) jsmap \<Rightarrow> Obj list \<Rightarrow> (int \<times> int) set" where
  "edges mp objs = {(a, b). b \<in> succs mp objs a}"

definition skel :: "Obj list \<Rightarrow> Obj list" where
  "skel xs = map (\<lambda>ob. ob\<lparr>marked := False\<rparr>) xs"

subsection \<open>The plan of prepare\<close>

text \<open>
  What the first loop of \<open>prepareCompaction\<close> does to the objects it runs over, as
  values in the order of the loop: \<open>plan_vals\<close> gives the objects after the loop,
  \<open>plan_entries\<close> the calls of \<open>oldToNew.set\<close>, \<open>live_size\<close> the advance of the cursor.
\<close>

fun plan_vals :: "int \<Rightarrow> Obj list \<Rightarrow> Obj list" where
  "plan_vals c [] = []"
| "plan_vals c (ob # obs) =
     (if marked ob then ob\<lparr>newAddr := Some c\<rparr> # plan_vals (c + size_of ob) obs
      else ob # plan_vals c obs)"

fun plan_entries :: "int \<Rightarrow> Obj list \<Rightarrow> (int \<times> int) list" where
  "plan_entries c [] = []"
| "plan_entries c (ob # obs) =
     (if marked ob then (addr ob, c) # plan_entries (c + size_of ob) obs
      else plan_entries c obs)"

definition live_size :: "Obj list \<Rightarrow> int" where
  "live_size obs = sum_list (map size_of (filter marked obs))"

text \<open>The map \<open>oldToNew\<close> after the first loop of \<open>prepareCompaction\<close>.\<close>

definition plan_map :: "Obj list \<Rightarrow> (int, int) jsmap" where
  "plan_map objs = new_Map (plan_entries 0 (sortByAddr objs))"

section \<open>JavaScript maps\<close>

lemma AList_update_fresh:
  "k \<notin> fst ` set al \<Longrightarrow> AList.update k v al = al @ [(k, v)]"
  by (induction al) auto

lemma fold_AList_update_fresh:
  "distinct (map fst (acc @ es)) \<Longrightarrow>
   fold (\<lambda>e al. AList.update (fst e) (snd e) al) es acc = acc @ es"
proof (induction es arbitrary: acc)
  case Nil
  then show ?case by simp
next
  case (Cons e es)
  from Cons.prems have fresh: "fst e \<notin> fst ` set acc" by auto
  from Cons.prems have "distinct (map fst ((acc @ [e]) @ es))" by simp
  from Cons.IH[OF this] show ?case
    by (simp add: AList_update_fresh[OF fresh])
qed

lemma entries_fold_map_set:
  "map_entries (fold (\<lambda>e m. map_set (fst e) (snd e) m) es m0) =
     fold (\<lambda>e al. AList.update (fst e) (snd e) al) es (map_entries m0)"
  by (induction es arbitrary: m0) (simp_all add: DAList.update.rep_eq)

lemma new_Map_entries: "new_Map (map_entries m) = m"
proof (rule alist_ext)
  have "distinct (map fst ([] @ map_entries m))" by simp
  from fold_AList_update_fresh[OF this]
  show "map_entries (new_Map (map_entries m)) = map_entries m"
    by (simp add: new_Map_def entries_fold_map_set DAList.empty.rep_eq)
qed

lemma lookup_fold_map_set:
  "map_get (fold (\<lambda>e m. map_set (fst e) (snd e) m) es m) a =
     (case map_of (rev es) a of Some v \<Rightarrow> Some v | None \<Rightarrow> map_get m a)"
proof (induction es arbitrary: m)
  case Nil
  then show ?case by simp
next
  case (Cons e es)
  show ?case
    by (cases e) (auto simp: Cons.IH DAList.lookup_update map_add_def split: option.splits)
qed

lemma map_get_new_Map: "map_get (new_Map es) a = map_of (rev es) a"
  by (simp add: new_Map_def lookup_fold_map_set split: option.splits)

lemma map_of_rev_distinct:
  "distinct (map fst es) \<Longrightarrow> map_of (rev es) k = map_of es k"
proof (induction es)
  case Nil
  then show ?case by simp
next
  case (Cons e es)
  then have "map_of es (fst e) = None"
    by (simp add: map_of_eq_None_iff)
  with Cons show ?case
    by (cases e) (auto simp: map_add_def split: option.splits)
qed

lemma map_get_new_Map_distinct:
  "distinct (map fst es) \<Longrightarrow> map_get (new_Map es) a = map_of es a"
  by (simp add: map_get_new_Map map_of_rev_distinct)

section \<open>Evaluating the default scenario\<close>

lemma upt_4: "[0..<4] = [0, 1, 2, 3]"
  by (simp add: upt_rec)

lemma default_mark:
  "markReachable (sc_objects makeDefaultScenario) (Some 2) =
     [\<lparr>id_of = ''A'', addr = 2, size_of = 4, fields_of = [Some 8, Some 14, None],
       marked = True, newAddr = None\<rparr>,
      \<lparr>id_of = ''B'', addr = 8, size_of = 3, fields_of = [Some 14, None],
       marked = True, newAddr = None\<rparr>,
      \<lparr>id_of = ''C'', addr = 14, size_of = 3, fields_of = [None, None],
       marked = True, newAddr = None\<rparr>,
      \<lparr>id_of = ''D'', addr = 22, size_of = 5, fields_of = [None, None, None, None],
       marked = False, newAddr = None\<rparr>]"
  by (simp add: markReachable_def obj_map_def makeDefaultScenario_def new_Map_def upt_4
      DAList.lookup_update)

lemma default_prepare:
  "prepareCompaction (markReachable (sc_objects makeDefaultScenario) (Some 2)) 36 (Some 2) =
     \<lparr>p_objects =
        [\<lparr>id_of = ''A'', addr = 2, size_of = 4, fields_of = [Some 4, Some 7, None],
          marked = True, newAddr = Some 0\<rparr>,
         \<lparr>id_of = ''B'', addr = 8, size_of = 3, fields_of = [Some 7, None],
          marked = True, newAddr = Some 4\<rparr>,
         \<lparr>id_of = ''C'', addr = 14, size_of = 3, fields_of = [None, None],
          marked = True, newAddr = Some 7\<rparr>,
         \<lparr>id_of = ''D'', addr = 22, size_of = 5, fields_of = [None, None, None, None],
          marked = False, newAddr = None\<rparr>],
      p_oldToNew = map_set 14 7 (map_set 8 4 (map_set 2 0 DAList.empty)),
      p_newRoot = Some 0,
      p_nextFree = 10\<rparr>"
  unfolding default_mark
  by (simp add: prepareCompaction_def sortByAddr_refs_def upt_4 retarget_def map_has_def
      DAList.lookup_update)

lemma default_entries:
  "map_entries (map_set 14 7 (map_set 8 4 (map_set 2 0 (DAList.empty :: (int, int) jsmap)))) =
     [(2, 0), (8, 4), (14, 7)]"
  by (simp add: DAList.update.rep_eq DAList.empty.rep_eq)

lemma default_crunch:
  "crunch (p_objects (prepareCompaction (markReachable (sc_objects makeDefaultScenario) (Some 2)) 36 (Some 2)))
     (p_oldToNew (prepareCompaction (markReachable (sc_objects makeDefaultScenario) (Some 2)) 36 (Some 2))) =
   Inr [\<lparr>id_of = ''A'', addr = 0, size_of = 4, fields_of = [Some 4, Some 7, None],
          marked = False, newAddr = None\<rparr>,
        \<lparr>id_of = ''B'', addr = 4, size_of = 3, fields_of = [Some 7, None],
          marked = False, newAddr = None\<rparr>,
        \<lparr>id_of = ''C'', addr = 7, size_of = 3, fields_of = [None, None],
          marked = False, newAddr = None\<rparr>]"
  unfolding default_prepare
  by (simp add: crunch_def sortByAddr_def DAList.lookup_update)

section \<open>What mark computes\<close>

lemma skel_length [simp]: "length (skel xs) = length xs"
  by (simp add: skel_def)

lemma skel_mark [simp]: "skel (xs[i := (xs ! i)\<lparr>marked := b\<rparr>]) = skel xs"
proof (cases "i < length xs")
  case True
  then have "(map (\<lambda>ob. ob\<lparr>marked := False\<rparr>) xs)[i := (xs ! i)\<lparr>marked := False\<rparr>] =
      map (\<lambda>ob. ob\<lparr>marked := False\<rparr>) xs"
    by (metis list_update_id nth_map)
  then show ?thesis by (simp add: skel_def map_update)
next
  case False
  then show ?thesis by (simp add: list_update_beyond)
qed

lemma skel_nth:
  "skel xs = skel ys \<Longrightarrow> i < length ys \<Longrightarrow>
   fields_of (xs ! i) = fields_of (ys ! i) \<and> addr (xs ! i) = addr (ys ! i) \<and>
   id_of (xs ! i) = id_of (ys ! i) \<and> size_of (xs ! i) = size_of (ys ! i) \<and>
   newAddr (xs ! i) = newAddr (ys ! i)"
proof -
  assume e: "skel xs = skel ys" and i: "i < length ys"
  from e have l: "length xs = length ys"
    by (metis skel_length)
  from e have "skel xs ! i = skel ys ! i" by simp
  with i l have "(xs ! i)\<lparr>marked := False\<rparr> = (ys ! i)\<lparr>marked := False\<rparr>"
    by (simp add: skel_def)
  then show ?thesis
    by (metis Obj.select_convs(1,2,3,4,6) Obj.surjective Obj.update_convs(5))
qed

lemma dfs_skel:
  "skel (snd (dfs mp a st)) = skel (snd st)"
  "skel (snd (dfs_fields mp ps st)) = skel (snd st)"
proof (induction mp a st and mp ps st rule: dfs_dfs_fields.induct)
  case (1 mp st)
  then show ?case by simp
next
  case (2 mp a visited objs)
  then show ?case by (auto split: option.splits)
next
  case (3 mp st)
  then show ?case by simp
next
  case (4 mp p ps st)
  then show ?case by (cases p) auto
qed

lemma dfs_visited_grows:
  "fst st \<subseteq> fst (dfs mp a st)"
  "fst st \<subseteq> fst (dfs_fields mp ps st)"
proof (induction mp a st and mp ps st rule: dfs_dfs_fields.induct)
  case (1 mp st)
  then show ?case by simp
next
  case (2 mp a visited objs)
  then show ?case by (auto split: option.splits)
next
  case (3 mp st)
  then show ?case by simp
next
  case (4 mp p ps st)
  then show ?case by (cases p) auto
qed


lemma dfs_length [simp]:
  "length (snd (dfs mp a st)) = length (snd st)"
  "length (snd (dfs_fields mp ps st)) = length (snd st)"
  by (metis dfs_skel(1) skel_length) (metis dfs_skel(2) skel_length)

text \<open>The marks written are those of the objects whose addresses were visited.\<close>

lemma dfs_marks:
  "(\<forall>x i. map_get mp x = Some i \<longrightarrow> i < length (snd st)) \<Longrightarrow>
   \<forall>i<length (snd st).
     marked (snd (dfs mp a st) ! i) =
       (marked (snd st ! i) \<or> (\<exists>x\<in>fst (dfs mp a st) - fst st. map_get mp x = Some i))"
  "(\<forall>x i. map_get mp x = Some i \<longrightarrow> i < length (snd st)) \<Longrightarrow>
   \<forall>i<length (snd st).
     marked (snd (dfs_fields mp ps st) ! i) =
       (marked (snd st ! i) \<or> (\<exists>x\<in>fst (dfs_fields mp ps st) - fst st. map_get mp x = Some i))"
proof (induction mp a st and mp ps st rule: dfs_dfs_fields.induct)
  case (1 mp st)
  then show ?case by simp
next
  case (2 mp a visited objs)
  show ?case
  proof (cases "map_get mp a")
    case None
    then show ?thesis by simp
  next
    case (Some i0)
    show ?thesis
    proof (cases "a \<in> visited")
      case True
      with Some show ?thesis by simp
    next
      case False
      let ?st1 = "(insert a visited, objs[i0 := (objs ! i0)\<lparr>marked := True\<rparr>])"
      let ?r = "dfs_fields mp (fields_of (objs ! i0)) ?st1"
      have res: "dfs mp (Some a) (visited, objs) = ?r"
        using Some False by simp
      from "2.prems" Some have i0: "i0 < length objs" by auto
      from "2.prems" have b: "\<forall>x i. map_get mp x = Some i \<longrightarrow> i < length (snd ?st1)"
        by simp
      note ih = "2.IH"[OF Some False b]
      have av: "a \<in> fst ?r"
        using dfs_visited_grows(2)[of ?st1 mp "fields_of (objs ! i0)"] by auto
      show ?thesis
      proof (intro allI impI)
        fix i assume i: "i < length (snd (visited, objs))"
        then have i': "i < length (snd ?st1)" by simp
        from ih i' have "marked (snd ?r ! i) =
            (marked (snd ?st1 ! i) \<or> (\<exists>x\<in>fst ?r - fst ?st1. map_get mp x = Some i))"
          by blast
        moreover have "marked (snd ?st1 ! i) = (i = i0 \<or> marked (objs ! i))"
          using i i0 by (auto simp: nth_list_update)
        moreover have "(\<exists>x\<in>fst ?r - visited. map_get mp x = Some i) =
            (i = i0 \<or> (\<exists>x\<in>fst ?r - fst ?st1. map_get mp x = Some i))"
          using av False Some by auto
        ultimately show "marked (snd (dfs mp (Some a) (visited, objs)) ! i) =
            (marked (snd (visited, objs) ! i) \<or>
             (\<exists>x\<in>fst (dfs mp (Some a) (visited, objs)) - fst (visited, objs).
                 map_get mp x = Some i))"
          unfolding res by auto
      qed
    qed
  qed
next
  case (3 mp st)
  then show ?case by simp
next
  case (4 mp p ps st)
  let ?st1 = "case p of None \<Rightarrow> st | Some q \<Rightarrow> dfs mp (Some q) st"
  let ?r = "dfs_fields mp ps ?st1"
  have res: "dfs_fields mp (p # ps) st = ?r" by simp
  have l1: "length (snd ?st1) = length (snd st)"
    by (cases p) simp_all
  have g1: "fst st \<subseteq> fst ?st1"
    by (cases p) (simp_all add: dfs_visited_grows)
  have g2: "fst ?st1 \<subseteq> fst ?r"
    by (rule dfs_visited_grows)
  have m1: "\<forall>i<length (snd st).
      marked (snd ?st1 ! i) =
        (marked (snd st ! i) \<or> (\<exists>x\<in>fst ?st1 - fst st. map_get mp x = Some i))"
  proof (cases p)
    case None
    then show ?thesis by simp
  next
    case (Some q)
    from "4.IH"(1)[OF Some "4.prems"] show ?thesis by (simp add: Some)
  qed
  from "4.prems" l1 have b: "\<forall>x i. map_get mp x = Some i \<longrightarrow> i < length (snd ?st1)"
    by simp
  note m2 = "4.IH"(2)[OF b]
  show ?case
  proof (intro allI impI)
    fix i assume i: "i < length (snd st)"
    from m1 i have a1: "marked (snd ?st1 ! i) =
        (marked (snd st ! i) \<or> (\<exists>x\<in>fst ?st1 - fst st. map_get mp x = Some i))"
      by blast
    from m2 i l1 have a2: "marked (snd ?r ! i) =
        (marked (snd ?st1 ! i) \<or> (\<exists>x\<in>fst ?r - fst ?st1. map_get mp x = Some i))"
      by simp
    have "(\<exists>x\<in>fst ?r - fst st. map_get mp x = Some i) =
        ((\<exists>x\<in>fst ?st1 - fst st. map_get mp x = Some i) \<or>
         (\<exists>x\<in>fst ?r - fst ?st1. map_get mp x = Some i))"
      using g1 g2 by blast
    with a1 a2 show "marked (snd (dfs_fields mp (p # ps) st) ! i) =
        (marked (snd st ! i) \<or>
         (\<exists>x\<in>fst (dfs_fields mp (p # ps) st) - fst st. map_get mp x = Some i))"
      unfolding res by blast
  qed
qed


text \<open>
  What a call newly visits is closed under the pointer fields, within the visited set
  after the call; and the address the call starts from is visited when it has an object.
\<close>

lemma dfs_closed:
  "skel (snd st) = skel objs \<Longrightarrow> (\<forall>x i. map_get mp x = Some i \<longrightarrow> i < length objs) \<Longrightarrow>
   (\<forall>x. a = Some x \<longrightarrow> map_get mp x \<noteq> None \<longrightarrow> x \<in> fst (dfs mp a st)) \<and>
   (\<forall>x\<in>fst (dfs mp a st) - fst st. succs mp objs x \<subseteq> fst (dfs mp a st))"
  "skel (snd st) = skel objs \<Longrightarrow> (\<forall>x i. map_get mp x = Some i \<longrightarrow> i < length objs) \<Longrightarrow>
   (\<forall>q. Some q \<in> set ps \<longrightarrow> map_get mp q \<noteq> None \<longrightarrow> q \<in> fst (dfs_fields mp ps st)) \<and>
   (\<forall>x\<in>fst (dfs_fields mp ps st) - fst st. succs mp objs x \<subseteq> fst (dfs_fields mp ps st))"
proof (induction mp a st and mp ps st rule: dfs_dfs_fields.induct)
  case (1 mp st)
  then show ?case by simp
next
  case (2 mp a visited cur)
  show ?case
  proof (cases "map_get mp a")
    case None
    then show ?thesis by simp
  next
    case (Some i0)
    show ?thesis
    proof (cases "a \<in> visited")
      case True
      with Some show ?thesis by simp
    next
      case False
      let ?st1 = "(insert a visited, cur[i0 := (cur ! i0)\<lparr>marked := True\<rparr>])"
      let ?r = "dfs_fields mp (fields_of (cur ! i0)) ?st1"
      have res: "dfs mp (Some a) (visited, cur) = ?r"
        using Some False by simp
      from "2.prems" Some have i0: "i0 < length objs" by auto
      from "2.prems"(1) have sk: "skel (snd ?st1) = skel objs" by simp
      note ih = "2.IH"[OF Some False sk "2.prems"(2)]
      have av: "a \<in> fst ?r"
        using dfs_visited_grows(2)[of ?st1 mp "fields_of (cur ! i0)"] by auto
      have fl: "fields_of (cur ! i0) = fields_of (objs ! i0)"
        using skel_nth[OF _ i0, of cur] "2.prems"(1) by simp
      have sa: "succs mp objs a \<subseteq> fst ?r"
        using ih Some by (auto simp: succs_def fl)
      have "\<forall>x\<in>fst ?r - visited. succs mp objs x \<subseteq> fst ?r"
      proof
        fix x assume "x \<in> fst ?r - visited"
        then have "x = a \<or> x \<in> fst ?r - fst ?st1" by auto
        then show "succs mp objs x \<subseteq> fst ?r"
          using sa ih by blast
      qed
      with av show ?thesis unfolding res by simp
    qed
  qed
next
  case (3 mp st)
  then show ?case by simp
next
  case (4 mp p ps st)
  let ?st1 = "case p of None \<Rightarrow> st | Some q \<Rightarrow> dfs mp (Some q) st"
  let ?r = "dfs_fields mp ps ?st1"
  have res: "dfs_fields mp (p # ps) st = ?r" by simp
  have sk: "skel (snd ?st1) = skel objs"
    using "4.prems"(1) by (cases p) (simp_all add: dfs_skel)
  have g1: "fst st \<subseteq> fst ?st1"
    by (cases p) (simp_all add: dfs_visited_grows)
  have g2: "fst ?st1 \<subseteq> fst ?r"
    by (rule dfs_visited_grows)
  have c1: "(\<forall>x. p = Some x \<longrightarrow> map_get mp x \<noteq> None \<longrightarrow> x \<in> fst ?st1) \<and>
      (\<forall>x\<in>fst ?st1 - fst st. succs mp objs x \<subseteq> fst ?st1)"
  proof (cases p)
    case None
    then show ?thesis by simp
  next
    case (Some q)
    from "4.IH"(1)[OF Some "4.prems"] show ?thesis by (simp add: Some)
  qed
  note c2 = "4.IH"(2)[OF sk "4.prems"(2)]
  have a: "\<forall>q. Some q \<in> set (p # ps) \<longrightarrow> map_get mp q \<noteq> None \<longrightarrow> q \<in> fst ?r"
    using c1 c2 g2 by auto
  have b: "\<forall>x\<in>fst ?r - fst st. succs mp objs x \<subseteq> fst ?r"
  proof
    fix x assume "x \<in> fst ?r - fst st"
    then have "x \<in> fst ?st1 - fst st \<or> x \<in> fst ?r - fst ?st1" by auto
    then show "succs mp objs x \<subseteq> fst ?r"
      using c1 c2 g2 by blast
  qed
  from a b show ?case unfolding res by blast
qed

text \<open>What a call newly visits is reached from where it starts.\<close>

lemma dfs_sound:
  "skel (snd st) = skel objs \<Longrightarrow> (\<forall>x i. map_get mp x = Some i \<longrightarrow> i < length objs) \<Longrightarrow>
   \<forall>x\<in>fst (dfs mp a st) - fst st.
     \<exists>r. a = Some r \<and> map_get mp r \<noteq> None \<and> (r, x) \<in> (edges mp objs)\<^sup>*"
  "skel (snd st) = skel objs \<Longrightarrow> (\<forall>x i. map_get mp x = Some i \<longrightarrow> i < length objs) \<Longrightarrow>
   \<forall>x\<in>fst (dfs_fields mp ps st) - fst st.
     \<exists>q. Some q \<in> set ps \<and> map_get mp q \<noteq> None \<and> (q, x) \<in> (edges mp objs)\<^sup>*"
proof (induction mp a st and mp ps st rule: dfs_dfs_fields.induct)
  case (1 mp st)
  then show ?case by simp
next
  case (2 mp a visited cur)
  show ?case
  proof (cases "map_get mp a")
    case None
    then show ?thesis by simp
  next
    case (Some i0)
    show ?thesis
    proof (cases "a \<in> visited")
      case True
      with Some show ?thesis by simp
    next
      case False
      let ?st1 = "(insert a visited, cur[i0 := (cur ! i0)\<lparr>marked := True\<rparr>])"
      let ?r = "dfs_fields mp (fields_of (cur ! i0)) ?st1"
      have res: "dfs mp (Some a) (visited, cur) = ?r"
        using Some False by simp
      from "2.prems" Some have i0: "i0 < length objs" by auto
      from "2.prems"(1) have sk: "skel (snd ?st1) = skel objs" by simp
      note ih = "2.IH"[OF Some False sk "2.prems"(2)]
      have fl: "fields_of (cur ! i0) = fields_of (objs ! i0)"
        using skel_nth[OF _ i0, of cur] "2.prems"(1) by simp
      have "\<forall>x\<in>fst ?r - visited. (a, x) \<in> (edges mp objs)\<^sup>*"
      proof
        fix x assume x: "x \<in> fst ?r - visited"
        show "(a, x) \<in> (edges mp objs)\<^sup>*"
        proof (cases "x = a")
          case True
          then show ?thesis by simp
        next
          case False
          with x have "x \<in> fst ?r - fst ?st1" by simp
          with ih obtain q where q: "Some q \<in> set (fields_of (cur ! i0))"
            "map_get mp q \<noteq> None" "(q, x) \<in> (edges mp objs)\<^sup>*"
            by blast
          from q(1,2) Some have "(a, q) \<in> edges mp objs"
            by (auto simp: edges_def succs_def fl)
          then show ?thesis
            using q(3) by (rule converse_rtrancl_into_rtrancl)
        qed
      qed
      with Some show ?thesis unfolding res by simp
    qed
  qed
next
  case (3 mp st)
  then show ?case by simp
next
  case (4 mp p ps st)
  let ?st1 = "case p of None \<Rightarrow> st | Some q \<Rightarrow> dfs mp (Some q) st"
  let ?r = "dfs_fields mp ps ?st1"
  have res: "dfs_fields mp (p # ps) st = ?r" by simp
  have sk: "skel (snd ?st1) = skel objs"
    using "4.prems"(1) by (cases p) (simp_all add: dfs_skel)
  have c1: "\<forall>x\<in>fst ?st1 - fst st.
      \<exists>q. p = Some q \<and> map_get mp q \<noteq> None \<and> (q, x) \<in> (edges mp objs)\<^sup>*"
  proof (cases p)
    case None
    then show ?thesis by simp
  next
    case (Some q)
    from "4.IH"(1)[OF Some "4.prems"] show ?thesis by (simp add: Some)
  qed
  note c2 = "4.IH"(2)[OF sk "4.prems"(2)]
  have "\<forall>x\<in>fst ?r - fst st.
      \<exists>q. Some q \<in> set (p # ps) \<and> map_get mp q \<noteq> None \<and> (q, x) \<in> (edges mp objs)\<^sup>*"
  proof
    fix x assume "x \<in> fst ?r - fst st"
    then have "x \<in> fst ?st1 - fst st \<or> x \<in> fst ?r - fst ?st1" by auto
    then show "\<exists>q. Some q \<in> set (p # ps) \<and> map_get mp q \<noteq> None \<and>
        (q, x) \<in> (edges mp objs)\<^sup>*"
    proof
      assume "x \<in> fst ?st1 - fst st"
      with c1 obtain q where "p = Some q" "map_get mp q \<noteq> None"
        "(q, x) \<in> (edges mp objs)\<^sup>*"
        by blast
      then show ?thesis by auto
    next
      assume "x \<in> fst ?r - fst ?st1"
      with c2 obtain q where "Some q \<in> set ps" "map_get mp q \<noteq> None"
        "(q, x) \<in> (edges mp objs)\<^sup>*"
        by blast
      then show ?thesis by auto
    qed
  qed
  then show ?case unfolding res .
qed


lemma obj_map_Some:
  assumes "map_get (obj_map objs) x = Some i"
  shows "i < length objs \<and> addr (objs ! i) = x"
proof -
  from assms have "map_of (rev (map (\<lambda>i. (addr (objs ! i), i)) [0..<length objs])) x = Some i"
    by (simp add: obj_map_def map_get_new_Map)
  then have "(x, i) \<in> set (rev (map (\<lambda>i. (addr (objs ! i), i)) [0..<length objs]))"
    by (rule map_of_SomeD)
  then show ?thesis by auto
qed

lemma obj_map_defined:
  assumes "i < length objs"
  shows "map_get (obj_map objs) (addr (objs ! i)) \<noteq> None"
proof -
  from assms have "addr (objs ! i) \<in>
      fst ` set (rev (map (\<lambda>i. (addr (objs ! i), i)) [0..<length objs]))"
    by (auto simp: image_iff)
  then show ?thesis
    by (simp add: obj_map_def map_get_new_Map map_of_eq_None_iff del: set_rev)
qed

lemma obj_map_distinct:
  assumes "distinct (map addr objs)" "i < length objs"
  shows "map_get (obj_map objs) (addr (objs ! i)) = Some i"
proof -
  from obj_map_defined[OF assms(2)] obtain j
    where j: "map_get (obj_map objs) (addr (objs ! i)) = Some j"
    by auto
  from obj_map_Some[OF j] have "j < length objs" "addr (objs ! j) = addr (objs ! i)"
    by simp_all
  with assms have "j = i"
    using nth_eq_iff_index_eq[of "map addr objs" j i] by simp
  with j show ?thesis by simp
qed


lemma edges_reachable:
  assumes "map_get (obj_map objs) r \<noteq> None" "(r, x) \<in> (edges (obj_map objs) objs)\<^sup>*"
  shows "reachable objs r x"
  using assms(2)
proof (induction rule: rtrancl_induct)
  case base
  from assms(1) obtain i where "map_get (obj_map objs) r = Some i" by auto
  from obj_map_Some[OF this] show ?case
    by (intro reach_root[of "objs ! i"]) simp_all
next
  case (step y z)
  from step.hyps(2) obtain i j where i: "map_get (obj_map objs) y = Some i"
    and f: "Some z \<in> set (fields_of (objs ! i))" and j: "map_get (obj_map objs) z = Some j"
    by (auto simp: edges_def succs_def)
  from obj_map_Some[OF i] obj_map_Some[OF j] f step.IH show ?case
    by (intro reach_hop[of objs r y "objs ! i" z "objs ! j"]) simp_all
qed

lemma reachable_edges:
  assumes "distinct (map addr objs)" "reachable objs r x"
  shows "map_get (obj_map objs) r \<noteq> None \<and> (r, x) \<in> (edges (obj_map objs) objs)\<^sup>*"
  using assms(2)
proof (induction rule: reachable.induct)
  case (reach_root ob)
  then obtain i where "i < length objs" "objs ! i = ob"
    by (auto simp: in_set_conv_nth)
  with obj_map_defined[of i objs] reach_root show ?case by auto
next
  case (reach_hop a ob b tgt)
  from reach_hop.hyps(2) obtain i where i: "i < length objs" "objs ! i = ob"
    by (auto simp: in_set_conv_nth)
  from reach_hop.hyps(5) obtain j where j: "j < length objs" "objs ! j = tgt"
    by (auto simp: in_set_conv_nth)
  have "map_get (obj_map objs) a = Some i"
    using obj_map_distinct[OF assms(1) i(1)] i(2) reach_hop.hyps(3) by simp
  moreover have "map_get (obj_map objs) b \<noteq> None"
    using obj_map_defined[OF j(1)] j(2) reach_hop.hyps(6) by simp
  ultimately have "(a, b) \<in> edges (obj_map objs) objs"
    using reach_hop.hyps(4) i(2) by (auto simp: edges_def succs_def)
  with reach_hop.IH show ?case by auto
qed

lemma dfs_visits_reachable:
  "fst (dfs (obj_map objs) (Some r) ({}, objs)) =
     {x. map_get (obj_map objs) r \<noteq> None \<and> (r, x) \<in> (edges (obj_map objs) objs)\<^sup>*}"
proof -
  let ?mp = "obj_map objs"
  let ?V = "fst (dfs ?mp (Some r) ({}, objs))"
  have b: "\<forall>x i. map_get ?mp x = Some i \<longrightarrow> i < length objs"
    using obj_map_Some by blast
  have sk: "skel (snd ({}, objs)) = skel objs" by simp
  note c = dfs_closed(1)[OF sk b, of "Some r"]
  note s = dfs_sound(1)[OF sk b, of "Some r"]
  have "x \<in> ?V" if r: "map_get ?mp r \<noteq> None" and p: "(r, x) \<in> (edges ?mp objs)\<^sup>*" for x
    using p
  proof (induction rule: rtrancl_induct)
    case base
    from c r show ?case by blast
  next
    case (step y z)
    from step.hyps(2) have "z \<in> succs ?mp objs y" by (simp add: edges_def)
    with c step.IH show ?case by (simp del: dfs.simps) blast
  qed
  moreover have "map_get ?mp r \<noteq> None \<and> (r, x) \<in> (edges ?mp objs)\<^sup>*" if "x \<in> ?V" for x
    using s that by (simp del: dfs.simps)
  ultimately show ?thesis by blast
qed

lemma markReachable_eq:
  "markReachable objs rootAddr =
     snd (case rootAddr of None \<Rightarrow> ({}, objs) | Some r \<Rightarrow> dfs (obj_map objs) (Some r) ({}, objs))"
  by (cases rootAddr) (simp_all add: markReachable_def del: dfs.simps)

lemma markReachable_skel: "skel (markReachable objs rootAddr) = skel objs"
  by (cases rootAddr) (simp_all add: markReachable_eq dfs_skel del: dfs.simps)

lemma markReachable_length [simp]: "length (markReachable objs rootAddr) = length objs"
  by (metis markReachable_skel skel_length)

lemma markReachable_marked:
  assumes "distinct (map addr objs)" "i < length objs"
  shows "marked (markReachable objs rootAddr ! i) =
     (marked (objs ! i) \<or> (\<exists>r. rootAddr = Some r \<and> reachable objs r (addr (objs ! i))))"
proof (cases rootAddr)
  case None
  then show ?thesis by (simp add: markReachable_eq)
next
  case (Some r)
  let ?mp = "obj_map objs"
  let ?res = "dfs ?mp (Some r) ({}, objs)"
  have b: "\<forall>x i. map_get ?mp x = Some i \<longrightarrow> i < length (snd ({}, objs))"
    using obj_map_Some by auto
  from dfs_marks(1)[OF b, of "Some r"] assms(2)
  have "marked (snd ?res ! i) =
      (marked (objs ! i) \<or> (\<exists>x\<in>fst ?res. map_get ?mp x = Some i))"
    by (simp del: dfs.simps)
  moreover have "(\<exists>x\<in>fst ?res. map_get ?mp x = Some i) = (addr (objs ! i) \<in> fst ?res)"
    using obj_map_Some[of objs _ i] obj_map_distinct[OF assms] by blast
  moreover have "(addr (objs ! i) \<in> fst ?res) = reachable objs r (addr (objs ! i))"
    unfolding dfs_visits_reachable
    using edges_reachable[of objs r] reachable_edges[OF assms(1), of r]
    by blast
  ultimately show ?thesis by (simp add: markReachable_eq Some del: dfs.simps)
qed

text \<open>
  Claim C1. On a heap with distinct object addresses and no marked object,
  markReachable changes nothing but the marks, and marks an object exactly when the
  root is an address and the address of the object is reachable from it. With a null
  root nothing is marked. The function is total: a field value at which no object
  starts is passed over.
\<close>

theorem mark_is_reachability:
  assumes "distinct (map addr objs)" "\<forall>ob\<in>set objs. \<not> marked ob"
  shows "markReachable objs rootAddr =
     map (\<lambda>ob. ob\<lparr>marked := (\<exists>r. rootAddr = Some r \<and> reachable objs r (addr ob))\<rparr>) objs"
proof (rule nth_equalityI)
  show "length (markReachable objs rootAddr) =
      length (map (\<lambda>ob. ob\<lparr>marked := (\<exists>r. rootAddr = Some r \<and> reachable objs r (addr ob))\<rparr>) objs)"
    by simp
next
  fix i assume "i < length (markReachable objs rootAddr)"
  then have i: "i < length objs" by simp
  let ?q = "markReachable objs rootAddr ! i"
  from assms(2) i have "\<not> marked (objs ! i)" by simp
  with markReachable_marked[OF assms(1) i, of rootAddr]
  have m: "marked ?q = (\<exists>r. rootAddr = Some r \<and> reachable objs r (addr (objs ! i)))"
    by simp
  have "skel (markReachable objs rootAddr) ! i = skel objs ! i"
    by (simp only: markReachable_skel)
  with i have "?q\<lparr>marked := False\<rparr> = (objs ! i)\<lparr>marked := False\<rparr>"
    by (simp add: skel_def)
  then have "?q\<lparr>marked := False, marked := marked ?q\<rparr> =
      (objs ! i)\<lparr>marked := False, marked := marked ?q\<rparr>"
    by (simp only:)
  then have "?q = (objs ! i)\<lparr>marked := marked ?q\<rparr>" by simp
  with m i show "?q =
      map (\<lambda>ob. ob\<lparr>marked := (\<exists>r. rootAddr = Some r \<and> reachable objs r (addr ob))\<rparr>) objs ! i"
    by simp
qed

theorem mark_is_reachability_witness:
  "distinct (map addr (sc_objects makeDefaultScenario)) \<and>
   list_all (\<lambda>ob. \<not> marked ob) (sc_objects makeDefaultScenario) \<and>
   map marked (markReachable (sc_objects makeDefaultScenario) (Some 2)) =
     [True, True, True, False] \<and>
   reachable (sc_objects makeDefaultScenario) 2 2 \<and>
   reachable (sc_objects makeDefaultScenario) 2 8 \<and>
   reachable (sc_objects makeDefaultScenario) 2 14 \<and>
   \<not> reachable (sc_objects makeDefaultScenario) 2 22 \<and>
   map marked (markReachable (sc_objects makeDefaultScenario) None) =
     [False, False, False, False]"
proof -
  let ?o = "sc_objects makeDefaultScenario"
  have d: "distinct (map addr ?o)"
    by (simp add: makeDefaultScenario_def)
  have u: "\<forall>ob\<in>set ?o. \<not> marked ob"
    by (simp add: makeDefaultScenario_def)
  have "map marked (markReachable ?o (Some 2)) =
      map (\<lambda>ob. \<exists>r. Some (2::int) = Some r \<and> reachable ?o r (addr ob)) ?o"
    by (simp only: mark_is_reachability[OF d u, of "Some 2"]) (simp add: comp_def)
  moreover have m: "map marked (markReachable ?o (Some 2)) = [True, True, True, False]"
    by (simp add: default_mark)
  ultimately have "map (\<lambda>ob. reachable ?o 2 (addr ob)) ?o = [True, True, True, False]"
    by simp
  then have r: "reachable ?o 2 2" "reachable ?o 2 8" "reachable ?o 2 14" "\<not> reachable ?o 2 22"
    by (simp_all add: makeDefaultScenario_def)
  have "map marked (markReachable ?o None) = map (\<lambda>ob. False) ?o"
    by (simp only: mark_is_reachability[OF d u, of None]) (simp add: comp_def)
  then have n: "map marked (markReachable ?o None) = [False, False, False, False]"
    by (simp add: makeDefaultScenario_def)
  from u have u': "list_all (\<lambda>ob. \<not> marked ob) ?o"
    by (simp add: list_all_iff)
  from d u' m r n show ?thesis by simp
qed

section \<open>What prepare computes\<close>

subsection \<open>The planning loop\<close>


lemma live_size_simps [simp]:
  "live_size [] = 0"
  "live_size (ob # obs) = (if marked ob then size_of ob + live_size obs else live_size obs)"
  by (simp_all add: live_size_def)

lemma live_size_append [simp]: "live_size (xs @ ys) = live_size xs + live_size ys"
  by (simp add: live_size_def)

lemma plan_loop_result:
  assumes "distinct rs" "\<forall>r\<in>set rs. r < length objs"
  shows "plan_loop rs (objs, m, c) =
           (fold (\<lambda>(r, ob) os. os[r := ob]) (zip rs (plan_vals c (map (nth objs) rs))) objs,
            fold (\<lambda>e m. map_set (fst e) (snd e) m) (plan_entries c (map (nth objs) rs)) m,
            c + live_size (map (nth objs) rs))"
  using assms
proof (induction rs arbitrary: objs m c)
  case Nil
  then show ?case by simp
next
  case (Cons r rs)
  let ?objs' = "objs[r := (objs ! r)\<lparr>newAddr := Some c\<rparr>]"
  from Cons.prems have d: "distinct rs" and nr: "r \<notin> set rs" and r: "r < length objs"
    and b: "\<forall>r\<in>set rs. r < length objs" by auto
  have "\<And>x. x \<in> set rs \<Longrightarrow> r \<noteq> x" using nr by auto
  then have same: "map (nth ?objs') rs = map (nth objs) rs"
    by simp
  show ?case
  proof (cases "marked (objs ! r)")
    case True
    let ?m' = "map_set (addr (objs ! r)) c m"
    let ?c' = "c + size_of (objs ! r)"
    from b have b': "\<forall>r\<in>set rs. r < length ?objs'" by simp
    have "plan_loop (r # rs) (objs, m, c) = plan_loop rs (?objs', ?m', ?c')"
      using True by simp
    also have "\<dots> =
        (fold (\<lambda>(r, ob) os. os[r := ob]) (zip rs (plan_vals ?c' (map (nth objs) rs))) ?objs',
         fold (\<lambda>e m. map_set (fst e) (snd e) m) (plan_entries ?c' (map (nth objs) rs)) ?m',
         ?c' + live_size (map (nth objs) rs))"
      using Cons.IH[OF d b', of ?m' ?c'] unfolding same .
    also have "\<dots> =
        (fold (\<lambda>(r, ob) os. os[r := ob])
           (zip (r # rs) (plan_vals c (map (nth objs) (r # rs)))) objs,
         fold (\<lambda>e m. map_set (fst e) (snd e) m) (plan_entries c (map (nth objs) (r # rs))) m,
         c + live_size (map (nth objs) (r # rs)))"
      using True by simp
    finally show ?thesis .
  next
    case False
    have "plan_loop (r # rs) (objs, m, c) = plan_loop rs (objs, m, c)"
      using False by simp
    also have "\<dots> =
        (fold (\<lambda>(r, ob) os. os[r := ob]) (zip rs (plan_vals c (map (nth objs) rs))) objs,
         fold (\<lambda>e m. map_set (fst e) (snd e) m) (plan_entries c (map (nth objs) rs)) m,
         c + live_size (map (nth objs) rs))"
      by (rule Cons.IH[OF d b])
    also have "\<dots> =
        (fold (\<lambda>(r, ob) os. os[r := ob])
           (zip (r # rs) (plan_vals c (map (nth objs) (r # rs)))) objs,
         fold (\<lambda>e m. map_set (fst e) (snd e) m) (plan_entries c (map (nth objs) (r # rs))) m,
         c + live_size (map (nth objs) (r # rs)))"
      using False by simp
    finally show ?thesis .
  qed
qed


subsection \<open>The array after the writes\<close>

lemma fold_update_length:
  "length (fold (\<lambda>(r, ob) os. os[r := ob]) ps os) = length os"
  by (induction ps arbitrary: os) auto

lemma fold_update_other:
  "i \<notin> fst ` set ps \<Longrightarrow> fold (\<lambda>(r, ob) os. os[r := ob]) ps os ! i = os ! i"
  by (induction ps arbitrary: os) (auto simp: nth_list_update_neq)

lemma fold_update_nth:
  assumes "distinct rs" "length vs = length rs" "\<forall>r\<in>set rs. r < length os" "k < length rs"
  shows "fold (\<lambda>(r, ob) os. os[r := ob]) (zip rs vs) os ! (rs ! k) = vs ! k"
  using assms
proof (induction rs arbitrary: vs os k)
  case Nil
  then show ?case by simp
next
  case (Cons r rs)
  then obtain v vs' where vs: "vs = v # vs'" by (cases vs) auto
  show ?case
  proof (cases k)
    case 0
    from Cons.prems have "r \<notin> fst ` set (zip rs vs')"
      by (auto dest: set_zip_leftD)
    from fold_update_other[OF this] Cons.prems show ?thesis
      by (simp add: vs 0)
  next
    case (Suc k')
    from Cons.prems have "distinct rs" "length vs' = length rs"
      "\<forall>j\<in>set rs. j < length (os[r := v])" "k' < length rs"
      by (auto simp: vs Suc)
    from Cons.IH[OF this] show ?thesis by (simp add: vs Suc)
  qed
qed

subsection \<open>The sorted references\<close>

lemma map_insort_key:
  "map g (insort_key (\<lambda>x. f (g x)) x xs) = insort_key f (g x) (map g xs)"
  by (induction xs) auto

lemma map_sort_key: "map g (sort_key (\<lambda>x. f (g x)) xs) = sort_key f (map g xs)"
  by (induction xs) (auto simp: map_insort_key)

lemma sortByAddr_refs_vals: "map (nth arr) (sortByAddr_refs arr) = sortByAddr arr"
  by (simp add: sortByAddr_refs_def sortByAddr_def map_sort_key map_nth)

lemma sortByAddr_refs_set [simp]: "set (sortByAddr_refs arr) = {0..<length arr}"
  by (simp add: sortByAddr_refs_def)

lemma sortByAddr_refs_distinct [simp]: "distinct (sortByAddr_refs arr)"
  by (simp add: sortByAddr_refs_def)

lemma sortByAddr_refs_length [simp]: "length (sortByAddr_refs arr) = length arr"
  by (simp add: sortByAddr_refs_def)

lemma sortByAddr_length [simp]: "length (sortByAddr arr) = length arr"
  by (simp add: sortByAddr_def)

lemma sortByAddr_refs_index:
  assumes "i < length arr"
  obtains k where "k < length arr" "sortByAddr_refs arr ! k = i" "sortByAddr arr ! k = arr ! i"
proof -
  from assms have "i \<in> set (sortByAddr_refs arr)" by simp
  then obtain k where k: "k < length (sortByAddr_refs arr)" "sortByAddr_refs arr ! k = i"
    unfolding in_set_conv_nth by blast
  have "sortByAddr arr ! k = map (nth arr) (sortByAddr_refs arr) ! k"
    by (simp add: sortByAddr_refs_vals)
  also have "\<dots> = arr ! i" using k by simp
  finally show ?thesis using k that by simp
qed

subsection \<open>Properties of the plan\<close>

lemma plan_vals_length [simp]: "length (plan_vals c xs) = length xs"
  by (induction xs arbitrary: c) auto

lemma plan_vals_nth:
  "k < length xs \<Longrightarrow>
   plan_vals c xs ! k =
     (if marked (xs ! k) then (xs ! k)\<lparr>newAddr := Some (c + live_size (take k xs))\<rparr>
      else xs ! k)"
proof (induction xs arbitrary: c k)
  case Nil
  then show ?case by simp
next
  case (Cons x xs)
  show ?case
  proof (cases k)
    case 0
    then show ?thesis by simp
  next
    case (Suc k')
    with Cons.prems have "k' < length xs" by simp
    from Cons.IH[OF this] show ?thesis
      by (simp add: Suc add.assoc)
  qed
qed

lemma plan_entries_keys: "fst ` set (plan_entries c xs) = addr ` {ob \<in> set xs. marked ob}"
  by (induction xs arbitrary: c) auto

lemma plan_entries_map_of:
  "distinct (map addr xs) \<Longrightarrow> k < length xs \<Longrightarrow>
   map_of (plan_entries c xs) (addr (xs ! k)) =
     (if marked (xs ! k) then Some (c + live_size (take k xs)) else None)"
proof (induction xs arbitrary: c k)
  case Nil
  then show ?case by simp
next
  case (Cons x xs)
  show ?case
  proof (cases k)
    case 0
    have "addr x \<notin> fst ` set (plan_entries c xs)"
      using Cons.prems by (auto simp: plan_entries_keys)
    then have "map_of (plan_entries c xs) (addr x) = None"
      by (simp add: map_of_eq_None_iff)
    then show ?thesis by (simp add: 0)
  next
    case (Suc k')
    with Cons.prems have k': "k' < length xs" and d: "distinct (map addr xs)"
      and nx: "addr x \<notin> addr ` set xs"
      by auto
    from k' have "addr (xs ! k') \<in> addr ` set xs"
      by (intro imageI nth_mem)
    with nx have ne: "addr (xs ! k') \<noteq> addr x" by auto
    from Cons.IH[OF d k'] ne show ?thesis
      by (simp add: Suc add.assoc)
  qed
qed

lemma plan_entries_distinct:
  "distinct (map addr xs) \<Longrightarrow> distinct (map fst (plan_entries c xs))"
proof (induction xs arbitrary: c)
  case Nil
  then show ?case by simp
next
  case (Cons x xs)
  have "addr x \<notin> fst ` set (plan_entries (c + size_of x) xs)"
    using Cons.prems by (auto simp: plan_entries_keys)
  with Cons show ?case by simp
qed

subsection \<open>Sorting by address\<close>

lemma sum_filter_insort_key:
  fixes g :: "'a \<Rightarrow> int"
  shows "sum_list (map g (filter P (insort_key f x xs))) = sum_list (map g (filter P (x # xs)))"
  by (induction xs) auto

lemma sum_filter_sort_key:
  fixes g :: "'a \<Rightarrow> int"
  shows "sum_list (map g (filter P (sort_key f xs))) = sum_list (map g (filter P xs))"
  by (induction xs) (auto simp: sum_filter_insort_key)

lemma distinct_map_sort_key: "distinct (map f (sort_key f xs)) = distinct (map f xs)"
  by (induction xs) (auto simp: distinct_insort_key)

lemma sortByAddr_sorted: "sorted (map addr (sortByAddr arr))"
  by (simp add: sortByAddr_def)

lemma sortByAddr_distinct:
  "distinct (map addr arr) \<Longrightarrow> distinct (map addr (sortByAddr arr))"
  by (simp add: sortByAddr_def distinct_map_sort_key)

lemma sortByAddr_set [simp]: "set (sortByAddr arr) = set arr"
  by (simp add: sortByAddr_def)

lemma sorted_distinct_take:
  fixes f :: "'a \<Rightarrow> int"
  assumes "sorted (map f xs)" "distinct (map f xs)" "k < length xs"
  shows "filter (\<lambda>x. f x < f (xs ! k)) xs = take k xs"
  using assms
proof (induction xs arbitrary: k)
  case Nil
  then show ?case by simp
next
  case (Cons x xs)
  from Cons.prems have lt: "\<forall>y\<in>set xs. f x < f y"
    by (auto simp: order_less_le)
  show ?case
  proof (cases k)
    case 0
    from lt have "filter (\<lambda>y. f y < f x) xs = []"
      by (auto simp: filter_empty_conv)
    then show ?thesis by (simp add: 0)
  next
    case (Suc k')
    with Cons.prems have s: "sorted (map f xs)" "distinct (map f xs)" "k' < length xs"
      by auto
    from s(3) lt have "f x < f (xs ! k')" by simp
    with Cons.IH[OF s] show ?thesis by (simp add: Suc)
  qed
qed

lemma live_size_below:
  assumes "distinct (map addr arr)" "k < length arr"
  shows "live_size (take k (sortByAddr arr)) =
     sum_list (map size_of
       (filter (\<lambda>ob. marked ob \<and> addr ob < addr (sortByAddr arr ! k)) arr))"
proof -
  let ?xs = "sortByAddr arr"
  have "take k ?xs = filter (\<lambda>ob. addr ob < addr (?xs ! k)) ?xs"
    using sorted_distinct_take[of addr ?xs k] assms
    by (simp add: sortByAddr_sorted sortByAddr_distinct)
  then have "live_size (take k ?xs) =
      sum_list (map size_of (filter (\<lambda>ob. marked ob \<and> addr ob < addr (?xs ! k)) ?xs))"
    by (simp add: live_size_def conj_commute)
  also have "\<dots> =
      sum_list (map size_of (filter (\<lambda>ob. marked ob \<and> addr ob < addr (?xs ! k)) arr))"
    unfolding sortByAddr_def by (rule sum_filter_sort_key)
  finally show ?thesis .
qed

lemma live_size_sortByAddr: "live_size (sortByAddr arr) = live_size arr"
  unfolding live_size_def sortByAddr_def by (rule sum_filter_sort_key)

subsection \<open>The result of prepareCompaction\<close>

lemma prepareCompaction_eq:
  "prepareCompaction objs memSize rootAddr =
     \<lparr>p_objects =
        map (\<lambda>ob. ob\<lparr>fields_of := map (retarget (plan_map objs)) (fields_of ob)\<rparr>)
          (fold (\<lambda>(r, ob) os. os[r := ob])
             (zip (sortByAddr_refs objs) (plan_vals 0 (sortByAddr objs))) objs),
      p_oldToNew = plan_map objs,
      p_newRoot = (case rootAddr of None \<Rightarrow> None | Some r \<Rightarrow> map_get (plan_map objs) r),
      p_nextFree = live_size objs\<rparr>"
proof -
  have "plan_loop (sortByAddr_refs objs) (objs, DAList.empty, 0) =
      (fold (\<lambda>(r, ob) os. os[r := ob])
         (zip (sortByAddr_refs objs) (plan_vals 0 (sortByAddr objs))) objs,
       plan_map objs, live_size objs)"
    using plan_loop_result[of "sortByAddr_refs objs" objs DAList.empty 0]
    by (simp add: sortByAddr_refs_vals plan_map_def new_Map_def live_size_sortByAddr)
  then show ?thesis
    by (simp add: prepareCompaction_def map_has_def split: option.splits)
qed

lemma prepare_nth:
  assumes "i < length objs"
  obtains k where "k < length objs" "sortByAddr objs ! k = objs ! i"
    "p_objects (prepareCompaction objs memSize rootAddr) ! i =
       (if marked (objs ! i)
        then (objs ! i)\<lparr>newAddr := Some (live_size (take k (sortByAddr objs)))\<rparr>
        else objs ! i)
       \<lparr>fields_of := map (retarget (plan_map objs)) (fields_of (objs ! i))\<rparr>"
proof -
  let ?rs = "sortByAddr_refs objs" and ?xs = "sortByAddr objs"
  let ?st = "fold (\<lambda>(r, ob) os. os[r := ob]) (zip ?rs (plan_vals 0 ?xs)) objs"
  from sortByAddr_refs_index[OF assms] obtain k
    where k: "k < length objs" "?rs ! k = i" "?xs ! k = objs ! i" .
  have "?st ! (?rs ! k) = plan_vals 0 ?xs ! k"
    using k(1) by (intro fold_update_nth) simp_all
  then have st: "?st ! i =
      (if marked (objs ! i) then (objs ! i)\<lparr>newAddr := Some (live_size (take k ?xs))\<rparr>
       else objs ! i)"
    using k by (simp add: plan_vals_nth)
  have "p_objects (prepareCompaction objs memSize rootAddr) ! i =
      (?st ! i)\<lparr>fields_of := map (retarget (plan_map objs)) (fields_of (?st ! i))\<rparr>"
    using assms by (simp add: prepareCompaction_eq fold_update_length)
  also have "\<dots> =
      (if marked (objs ! i) then (objs ! i)\<lparr>newAddr := Some (live_size (take k ?xs))\<rparr>
       else objs ! i)
      \<lparr>fields_of := map (retarget (plan_map objs)) (fields_of (objs ! i))\<rparr>"
    by (simp add: st)
  finally show ?thesis using k that by blast
qed

lemma prepare_length [simp]:
  "length (p_objects (prepareCompaction objs memSize rootAddr)) = length objs"
  by (simp add: prepareCompaction_eq fold_update_length)

lemma plan_map_get:
  assumes "distinct (map addr objs)" "k < length objs"
  shows "map_get (plan_map objs) (addr (sortByAddr objs ! k)) =
     (if marked (sortByAddr objs ! k) then Some (live_size (take k (sortByAddr objs)))
      else None)"
proof -
  have d: "distinct (map addr (sortByAddr objs))"
    using assms(1) by (rule sortByAddr_distinct)
  have "map_get (plan_map objs) (addr (sortByAddr objs ! k)) =
      map_of (plan_entries 0 (sortByAddr objs)) (addr (sortByAddr objs ! k))"
    unfolding plan_map_def
    by (rule map_get_new_Map_distinct) (rule plan_entries_distinct[OF d])
  also have "\<dots> =
      (if marked (sortByAddr objs ! k) then Some (0 + live_size (take k (sortByAddr objs)))
       else None)"
    using assms(2) by (intro plan_entries_map_of[OF d]) simp
  finally show ?thesis by simp
qed

lemma plan_map_keys:
  "fst ` set (map_entries (plan_map objs)) = addr ` {ob \<in> set objs. marked ob}"
proof -
  have "map_get (plan_map objs) a \<noteq> None \<longleftrightarrow> a \<in> addr ` {ob \<in> set objs. marked ob}" for a
    using plan_entries_keys[of 0 "sortByAddr objs"]
    by (simp add: plan_map_def map_get_new_Map map_of_eq_None_iff)
  moreover have "map_get m a \<noteq> None \<longleftrightarrow> a \<in> fst ` set (map_entries m)"
    for m :: "(int, int) jsmap" and a
    by (simp add: DAList.lookup.rep_eq map_of_eq_None_iff)
  ultimately show ?thesis by blast
qed


lemma prepare_oldToNew [simp]:
  "p_oldToNew (prepareCompaction objs memSize rootAddr) = plan_map objs"
  by (simp add: prepareCompaction_eq)

lemma prepare_nth_fields:
  assumes "i < length objs"
  shows "fields_of (p_objects (prepareCompaction objs memSize rootAddr) ! i) =
     map (retarget (plan_map objs)) (fields_of (objs ! i))"
proof -
  from assms obtain k where
    "p_objects (prepareCompaction objs memSize rootAddr) ! i =
       (if marked (objs ! i)
        then (objs ! i)\<lparr>newAddr := Some (live_size (take k (sortByAddr objs)))\<rparr>
        else objs ! i)
       \<lparr>fields_of := map (retarget (plan_map objs)) (fields_of (objs ! i))\<rparr>"
    by (rule prepare_nth)
  then show ?thesis by simp
qed

lemma prepare_nth_frame:
  assumes "i < length objs"
  shows "(p_objects (prepareCompaction objs memSize rootAddr) ! i)
           \<lparr>newAddr := None, fields_of := []\<rparr> =
         (objs ! i)\<lparr>newAddr := None, fields_of := []\<rparr>"
proof -
  from assms obtain k where
    "p_objects (prepareCompaction objs memSize rootAddr) ! i =
       (if marked (objs ! i)
        then (objs ! i)\<lparr>newAddr := Some (live_size (take k (sortByAddr objs)))\<rparr>
        else objs ! i)
       \<lparr>fields_of := map (retarget (plan_map objs)) (fields_of (objs ! i))\<rparr>"
    by (rule prepare_nth)
  then show ?thesis by simp
qed

lemma prepare_nth_unmarked:
  assumes "i < length objs" "\<not> marked (objs ! i)"
  shows "newAddr (p_objects (prepareCompaction objs memSize rootAddr) ! i) = newAddr (objs ! i)"
proof -
  from assms(1) obtain k where
    "p_objects (prepareCompaction objs memSize rootAddr) ! i =
       (if marked (objs ! i)
        then (objs ! i)\<lparr>newAddr := Some (live_size (take k (sortByAddr objs)))\<rparr>
        else objs ! i)
       \<lparr>fields_of := map (retarget (plan_map objs)) (fields_of (objs ! i))\<rparr>"
    by (rule prepare_nth)
  with assms(2) show ?thesis by simp
qed

lemma prepare_nth_marked:
  assumes "distinct (map addr objs)" "i < length objs" "marked (objs ! i)"
  shows "newAddr (p_objects (prepareCompaction objs memSize rootAddr) ! i) =
           Some (sum_list (map size_of
             (filter (\<lambda>ob. marked ob \<and> addr ob < addr (objs ! i)) objs)))"
    and "map_get (plan_map objs) (addr (objs ! i)) =
           Some (sum_list (map size_of
             (filter (\<lambda>ob. marked ob \<and> addr ob < addr (objs ! i)) objs)))"
proof -
  from assms(2) obtain k where k: "k < length objs" "sortByAddr objs ! k = objs ! i" and
    p: "p_objects (prepareCompaction objs memSize rootAddr) ! i =
       (if marked (objs ! i)
        then (objs ! i)\<lparr>newAddr := Some (live_size (take k (sortByAddr objs)))\<rparr>
        else objs ! i)
       \<lparr>fields_of := map (retarget (plan_map objs)) (fields_of (objs ! i))\<rparr>"
    by (rule prepare_nth)
  have l: "live_size (take k (sortByAddr objs)) =
      sum_list (map size_of (filter (\<lambda>ob. marked ob \<and> addr ob < addr (objs ! i)) objs))"
    using live_size_below[OF assms(1) k(1)] by (simp add: k(2))
  from p assms(3) l
  show "newAddr (p_objects (prepareCompaction objs memSize rootAddr) ! i) =
      Some (sum_list (map size_of
        (filter (\<lambda>ob. marked ob \<and> addr ob < addr (objs ! i)) objs)))"
    by simp
  from plan_map_get[OF assms(1) k(1)] assms(3) l
  show "map_get (plan_map objs) (addr (objs ! i)) =
      Some (sum_list (map size_of
        (filter (\<lambda>ob. marked ob \<and> addr ob < addr (objs ! i)) objs)))"
    by (simp add: k(2))
qed

lemma plan_map_unmarked:
  assumes "distinct (map addr objs)" "i < length objs" "\<not> marked (objs ! i)"
  shows "map_get (plan_map objs) (addr (objs ! i)) = None"
proof -
  from assms(2) obtain k where k: "k < length objs" "sortByAddr objs ! k = objs ! i"
    by (rule sortByAddr_refs_index)
  from plan_map_get[OF assms(1) k(1)] assms(3) show ?thesis
    by (simp add: k(2))
qed

subsection \<open>The prepared objects in address order\<close>

lemma prepare_nth_marked_iff:
  assumes "i < length objs"
  shows "marked (p_objects (prepareCompaction objs memSize rootAddr) ! i) = marked (objs ! i)"
    and "addr (p_objects (prepareCompaction objs memSize rootAddr) ! i) = addr (objs ! i)"
    and "size_of (p_objects (prepareCompaction objs memSize rootAddr) ! i) = size_of (objs ! i)"
proof -
  let ?f = "\<lambda>ob. ob\<lparr>newAddr := None, fields_of := []\<rparr>"
  let ?q = "p_objects (prepareCompaction objs memSize rootAddr) ! i"
  have e: "?f ?q = ?f (objs ! i)"
    using assms by (rule prepare_nth_frame)
  have "marked (?f ?q) = marked (?f (objs ! i))" by (simp only: e)
  then show "marked ?q = marked (objs ! i)" by simp
  have "addr (?f ?q) = addr (?f (objs ! i))" by (simp only: e)
  then show "addr ?q = addr (objs ! i)" by simp
  have "size_of (?f ?q) = size_of (?f (objs ! i))" by (simp only: e)
  then show "size_of ?q = size_of (objs ! i)" by simp
qed

lemma insort_key_cong_set:
  "f x = g x \<Longrightarrow> \<forall>y\<in>set xs. f y = g y \<Longrightarrow> insort_key f x xs = insort_key g x xs"
  by (induction xs) auto

lemma sort_key_cong_set:
  "\<forall>y\<in>set xs. f y = g y \<Longrightarrow> sort_key f xs = sort_key g xs"
  by (induction xs) (auto intro: insort_key_cong_set)

lemma sortByAddr_prepared:
  "sortByAddr (p_objects (prepareCompaction objs memSize rootAddr)) =
     map (\<lambda>ob. ob\<lparr>fields_of := map (retarget (plan_map objs)) (fields_of ob)\<rparr>)
       (plan_vals 0 (sortByAddr objs))"
proof -
  let ?rs = "sortByAddr_refs objs" and ?xs = "sortByAddr objs"
  let ?F = "\<lambda>ob. ob\<lparr>fields_of := map (retarget (plan_map objs)) (fields_of ob)\<rparr>"
  let ?st = "fold (\<lambda>(r, ob) os. os[r := ob]) (zip ?rs (plan_vals 0 ?xs)) objs"
  have len: "length ?st = length objs" by (rule fold_update_length)
  have vals: "map (nth ?st) ?rs = plan_vals 0 ?xs"
  proof (rule nth_equalityI)
    show "length (map (nth ?st) ?rs) = length (plan_vals 0 ?xs)" by simp
  next
    fix k assume "k < length (map (nth ?st) ?rs)"
    then have k: "k < length ?rs" by simp
    have "?st ! (?rs ! k) = plan_vals 0 ?xs ! k"
      using k by (intro fold_update_nth) simp_all
    with k show "map (nth ?st) ?rs ! k = plan_vals 0 ?xs ! k" by simp
  qed
  have po: "p_objects (prepareCompaction objs memSize rootAddr) = map ?F ?st"
    by (simp add: prepareCompaction_eq)
  have "\<forall>i\<in>set [0..<length ?st]. addr (?st ! i) = addr (objs ! i)"
  proof
    fix i assume "i \<in> set [0..<length ?st]"
    then have i: "i < length objs" by (simp add: len)
    have "addr (map ?F ?st ! i) = addr (objs ! i)"
      using prepare_nth_marked_iff(2)[OF i, of memSize rootAddr] by (simp only: po)
    then show "addr (?st ! i) = addr (objs ! i)"
      using i by (simp add: len)
  qed
  then have "sortByAddr_refs ?st = sort_key (\<lambda>i. addr (objs ! i)) [0..<length ?st]"
    unfolding sortByAddr_refs_def by (rule sort_key_cong_set)
  then have refs: "sortByAddr_refs ?st = ?rs"
    by (simp add: sortByAddr_refs_def fold_update_length)
  have "sortByAddr ?st = map (nth ?st) (sortByAddr_refs ?st)"
    by (simp add: sortByAddr_refs_vals)
  then have st: "sortByAddr ?st = plan_vals 0 ?xs"
    by (simp only: refs vals)
  have "sortByAddr (map ?F ?st) = map ?F (sort_key (\<lambda>ob. addr (?F ob)) ?st)"
    unfolding sortByAddr_def by (rule map_sort_key[symmetric])
  also have "\<dots> = map ?F (sortByAddr ?st)"
    by (simp add: sortByAddr_def)
  finally show ?thesis by (simp only: po st)
qed

lemma plan_vals_cursors:
  "map newAddr (filter marked (plan_vals c xs)) =
     map (\<lambda>k. Some (c + sum_list (take k (map size_of (filter marked xs)))))
       [0..<length (filter marked xs)]"
proof (induction xs arbitrary: c)
  case Nil
  then show ?case by simp
next
  case (Cons x xs)
  show ?case
  proof (cases "marked x")
    case True
    from Cons.IH[of "c + size_of x"] True show ?thesis
      by (simp add: map_upt_Suc add.assoc del: upt_Suc)
  next
    case False
    with Cons.IH[of c] show ?thesis by simp
  qed
qed

lemma prepared_cursors:
  "map newAddr (filter marked (sortByAddr (p_objects (prepareCompaction objs memSize rootAddr)))) =
     map (\<lambda>k. Some (sum_list (take k (map size_of (filter marked (sortByAddr objs))))))
       [0..<length (filter marked (sortByAddr objs))]"
proof -
  let ?F = "\<lambda>ob. ob\<lparr>fields_of := map (retarget (plan_map objs)) (fields_of ob)\<rparr>"
  have "filter marked (map ?F (plan_vals 0 (sortByAddr objs))) =
      map ?F (filter marked (plan_vals 0 (sortByAddr objs)))"
    by (simp add: filter_map comp_def)
  then have "map newAddr
        (filter marked (sortByAddr (p_objects (prepareCompaction objs memSize rootAddr)))) =
      map newAddr (filter marked (plan_vals 0 (sortByAddr objs)))"
    by (simp add: sortByAddr_prepared comp_def)
  then show ?thesis
    by (simp add: plan_vals_cursors)
qed

subsection \<open>Planned addresses, retargeted pointers, and what stays\<close>

text \<open>
  Claim C3. After prepare on a heap with distinct object addresses: the planned
  addresses of the marked objects, taken in ascending address order, are the sums of
  the sizes of the marked objects before (0 for the first, and each next one where the
  one before ends); said per object, the planned address of a marked object is the sum
  of the sizes of the marked objects at lower addresses, and the mapping sends its
  address there; an unmarked object keeps its planned address and has no entry in the
  mapping, whose keys are the addresses of the marked objects; nextFree is the total
  size of the marked objects.
\<close>

theorem prepare_plans_dense:
  assumes "distinct (map addr objs)"
  shows
    "length (p_objects (prepareCompaction objs memSize rootAddr)) = length objs \<and>
     map newAddr
         (filter marked (sortByAddr (p_objects (prepareCompaction objs memSize rootAddr)))) =
       map (\<lambda>k. Some (sum_list (take k (map size_of (filter marked (sortByAddr objs))))))
         [0..<length (filter marked (sortByAddr objs))] \<and>
     (\<forall>i<length objs. marked (objs ! i) \<longrightarrow>
        newAddr (p_objects (prepareCompaction objs memSize rootAddr) ! i) =
          Some (sum_list (map size_of
            (filter (\<lambda>ob. marked ob \<and> addr ob < addr (objs ! i)) objs))) \<and>
        map_get (p_oldToNew (prepareCompaction objs memSize rootAddr)) (addr (objs ! i)) =
          Some (sum_list (map size_of
            (filter (\<lambda>ob. marked ob \<and> addr ob < addr (objs ! i)) objs)))) \<and>
     (\<forall>i<length objs. \<not> marked (objs ! i) \<longrightarrow>
        newAddr (p_objects (prepareCompaction objs memSize rootAddr) ! i) = newAddr (objs ! i) \<and>
        map_get (p_oldToNew (prepareCompaction objs memSize rootAddr)) (addr (objs ! i)) = None) \<and>
     fst ` set (map_entries (p_oldToNew (prepareCompaction objs memSize rootAddr))) =
       addr ` {ob \<in> set objs. marked ob} \<and>
     p_nextFree (prepareCompaction objs memSize rootAddr) =
       sum_list (map size_of (filter marked objs))"
proof (intro conjI allI impI)
  show "length (p_objects (prepareCompaction objs memSize rootAddr)) = length objs"
    by simp
  show "map newAddr
         (filter marked (sortByAddr (p_objects (prepareCompaction objs memSize rootAddr)))) =
       map (\<lambda>k. Some (sum_list (take k (map size_of (filter marked (sortByAddr objs))))))
         [0..<length (filter marked (sortByAddr objs))]"
    by (rule prepared_cursors)
  show "fst ` set (map_entries (p_oldToNew (prepareCompaction objs memSize rootAddr))) =
      addr ` {ob \<in> set objs. marked ob}"
    by (simp add: plan_map_keys)
  show "p_nextFree (prepareCompaction objs memSize rootAddr) =
      sum_list (map size_of (filter marked objs))"
    by (simp add: prepareCompaction_eq live_size_def)
next
  fix i assume "i < length objs" "marked (objs ! i)"
  from prepare_nth_marked[OF assms this]
  show "newAddr (p_objects (prepareCompaction objs memSize rootAddr) ! i) =
          Some (sum_list (map size_of
            (filter (\<lambda>ob. marked ob \<and> addr ob < addr (objs ! i)) objs)))"
    and "map_get (p_oldToNew (prepareCompaction objs memSize rootAddr)) (addr (objs ! i)) =
          Some (sum_list (map size_of
            (filter (\<lambda>ob. marked ob \<and> addr ob < addr (objs ! i)) objs)))"
    by simp_all
next
  fix i assume i: "i < length objs" "\<not> marked (objs ! i)"
  from prepare_nth_unmarked[OF i]
  show "newAddr (p_objects (prepareCompaction objs memSize rootAddr) ! i) = newAddr (objs ! i)" .
  from plan_map_unmarked[OF assms i]
  show "map_get (p_oldToNew (prepareCompaction objs memSize rootAddr)) (addr (objs ! i)) = None"
    by simp
qed

text \<open>
  Claim C10. prepare keeps the number of objects and, object by object, everything but
  the planned address and the fields: identifier, address, size and mark are the same
  before and after.
\<close>

theorem prepare_moves_nothing:
  "map (\<lambda>ob. ob\<lparr>newAddr := None, fields_of := []\<rparr>)
       (p_objects (prepareCompaction objs memSize rootAddr)) =
     map (\<lambda>ob. ob\<lparr>newAddr := None, fields_of := []\<rparr>) objs \<and>
   map (\<lambda>ob. (id_of ob, addr ob, size_of ob, marked ob))
       (p_objects (prepareCompaction objs memSize rootAddr)) =
     map (\<lambda>ob. (id_of ob, addr ob, size_of ob, marked ob)) objs \<and>
   length (p_objects (prepareCompaction objs memSize rootAddr)) = length objs"
proof -
  have f: "map (\<lambda>ob. ob\<lparr>newAddr := None, fields_of := []\<rparr>)
       (p_objects (prepareCompaction objs memSize rootAddr)) =
     map (\<lambda>ob. ob\<lparr>newAddr := None, fields_of := []\<rparr>) objs"
    by (rule nth_equalityI) (simp_all add: prepare_nth_frame)
  have "map (\<lambda>ob. (id_of ob, addr ob, size_of ob, marked ob))
       (map (\<lambda>ob. ob\<lparr>newAddr := None, fields_of := []\<rparr>)
          (p_objects (prepareCompaction objs memSize rootAddr))) =
     map (\<lambda>ob. (id_of ob, addr ob, size_of ob, marked ob))
       (map (\<lambda>ob. ob\<lparr>newAddr := None, fields_of := []\<rparr>) objs)"
    by (simp only: f)
  then have "map (\<lambda>ob. (id_of ob, addr ob, size_of ob, marked ob))
       (p_objects (prepareCompaction objs memSize rootAddr)) =
     map (\<lambda>ob. (id_of ob, addr ob, size_of ob, marked ob)) objs"
    by (simp add: comp_def)
  with f show ?thesis by simp
qed


lemma retarget_simps:
  "retarget m None = None"
  "map_get m a = Some n \<Longrightarrow> retarget m (Some a) = Some n"
  "\<not> map_has m a \<Longrightarrow> retarget m (Some a) = Some a"
  by (simp_all add: retarget_def map_has_def)

text \<open>
  Claim C4. After prepare on a heap with distinct object addresses, a field that held
  the address of a marked object holds the planned address of that object; a field
  that is null, or whose value is no key of the mapping, is as before; the new root is
  the mapped address of the old root when the mapping has it, and null otherwise.
\<close>

theorem prepare_retargets:
  assumes "distinct (map addr objs)"
  shows
    "(\<forall>i<length objs. \<forall>j<length objs. \<forall>k<length (fields_of (objs ! i)).
        marked (objs ! j) \<and> fields_of (objs ! i) ! k = Some (addr (objs ! j)) \<longrightarrow>
        newAddr (p_objects (prepareCompaction objs memSize rootAddr) ! j) \<noteq> None \<and>
        fields_of (p_objects (prepareCompaction objs memSize rootAddr) ! i) ! k =
          newAddr (p_objects (prepareCompaction objs memSize rootAddr) ! j)) \<and>
     (\<forall>i<length objs.
        length (fields_of (p_objects (prepareCompaction objs memSize rootAddr) ! i)) =
          length (fields_of (objs ! i)) \<and>
        (\<forall>k<length (fields_of (objs ! i)).
           (fields_of (objs ! i) ! k = None \<or>
            (\<exists>a. fields_of (objs ! i) ! k = Some a \<and>
                 \<not> map_has (p_oldToNew (prepareCompaction objs memSize rootAddr)) a)) \<longrightarrow>
           fields_of (p_objects (prepareCompaction objs memSize rootAddr) ! i) ! k =
             fields_of (objs ! i) ! k)) \<and>
     p_newRoot (prepareCompaction objs memSize rootAddr) =
       (case rootAddr of
          None \<Rightarrow> None
        | Some r \<Rightarrow> map_get (p_oldToNew (prepareCompaction objs memSize rootAddr)) r)"
proof (intro conjI allI impI)
  fix i j k
  assume i: "i < length objs" and j: "j < length objs" and k: "k < length (fields_of (objs ! i))"
    and h: "marked (objs ! j) \<and> fields_of (objs ! i) ! k = Some (addr (objs ! j))"
  let ?v = "sum_list (map size_of
      (filter (\<lambda>ob. marked ob \<and> addr ob < addr (objs ! j)) objs))"
  from h have mj: "marked (objs ! j)" by simp
  have n: "newAddr (p_objects (prepareCompaction objs memSize rootAddr) ! j) = Some ?v"
    and g: "map_get (plan_map objs) (addr (objs ! j)) = Some ?v"
    using prepare_nth_marked[OF assms j mj] by simp_all
  from n show "newAddr (p_objects (prepareCompaction objs memSize rootAddr) ! j) \<noteq> None"
    by simp
  have "fields_of (p_objects (prepareCompaction objs memSize rootAddr) ! i) ! k =
      retarget (plan_map objs) (fields_of (objs ! i) ! k)"
    using k by (simp add: prepare_nth_fields[OF i])
  also have "\<dots> = Some ?v"
    using h by (simp add: retarget_simps(2)[OF g])
  finally show "fields_of (p_objects (prepareCompaction objs memSize rootAddr) ! i) ! k =
      newAddr (p_objects (prepareCompaction objs memSize rootAddr) ! j)"
    by (simp add: n)
next
  fix i assume i: "i < length objs"
  show "length (fields_of (p_objects (prepareCompaction objs memSize rootAddr) ! i)) =
      length (fields_of (objs ! i))"
    by (simp add: prepare_nth_fields[OF i])
next
  fix i k
  assume i: "i < length objs" and k: "k < length (fields_of (objs ! i))"
    and h: "fields_of (objs ! i) ! k = None \<or>
            (\<exists>a. fields_of (objs ! i) ! k = Some a \<and>
                 \<not> map_has (p_oldToNew (prepareCompaction objs memSize rootAddr)) a)"
  have "fields_of (p_objects (prepareCompaction objs memSize rootAddr) ! i) ! k =
      retarget (plan_map objs) (fields_of (objs ! i) ! k)"
    using k by (simp add: prepare_nth_fields[OF i])
  also have "\<dots> = fields_of (objs ! i) ! k"
    using h by (auto simp: retarget_simps)
  finally show "fields_of (p_objects (prepareCompaction objs memSize rootAddr) ! i) ! k =
      fields_of (objs ! i) ! k" .
next
  show "p_newRoot (prepareCompaction objs memSize rootAddr) =
       (case rootAddr of
          None \<Rightarrow> None
        | Some r \<Rightarrow> map_get (p_oldToNew (prepareCompaction objs memSize rootAddr)) r)"
    by (cases rootAddr) (simp_all add: prepareCompaction_eq)
qed


theorem prepare_plans_dense_witness:
  "distinct (map addr (markReachable (sc_objects makeDefaultScenario) (Some 2))) \<and>
   map marked (markReachable (sc_objects makeDefaultScenario) (Some 2)) =
     [True, True, True, False] \<and>
   newAddr (p_objects (prepareCompaction
      (markReachable (sc_objects makeDefaultScenario) (Some 2)) 36 (Some 2)) ! 1) = Some 4 \<and>
   map_get (p_oldToNew (prepareCompaction
      (markReachable (sc_objects makeDefaultScenario) (Some 2)) 36 (Some 2))) 8 = Some 4 \<and>
   newAddr (p_objects (prepareCompaction
      (markReachable (sc_objects makeDefaultScenario) (Some 2)) 36 (Some 2)) ! 3) = None \<and>
   map_get (p_oldToNew (prepareCompaction
      (markReachable (sc_objects makeDefaultScenario) (Some 2)) 36 (Some 2))) 22 = None \<and>
   p_nextFree (prepareCompaction
      (markReachable (sc_objects makeDefaultScenario) (Some 2)) 36 (Some 2)) = 10"
proof -
  let ?objs = "markReachable (sc_objects makeDefaultScenario) (Some 2)"
  have d: "distinct (map addr ?objs)"
    by (simp add: default_mark)
  note t = prepare_plans_dense[OF d, of 36 "Some 2"]
  have m: "map marked ?objs = [True, True, True, False]"
    by (simp add: default_mark)
  have "1 < length ?objs" "marked (?objs ! 1)"
    by (simp_all add: default_mark)
  with t have
    "newAddr (p_objects (prepareCompaction ?objs 36 (Some 2)) ! 1) =
       Some (sum_list (map size_of
         (filter (\<lambda>ob. marked ob \<and> addr ob < addr (?objs ! 1)) ?objs)))"
    "map_get (p_oldToNew (prepareCompaction ?objs 36 (Some 2))) (addr (?objs ! 1)) =
       Some (sum_list (map size_of
         (filter (\<lambda>ob. marked ob \<and> addr ob < addr (?objs ! 1)) ?objs)))"
    by blast+
  then have a: "newAddr (p_objects (prepareCompaction ?objs 36 (Some 2)) ! 1) = Some 4"
    "map_get (p_oldToNew (prepareCompaction ?objs 36 (Some 2))) 8 = Some 4"
    by (simp_all add: default_mark)
  have "3 < length ?objs" "\<not> marked (?objs ! 3)"
    by (simp_all add: default_mark)
  with t have
    "newAddr (p_objects (prepareCompaction ?objs 36 (Some 2)) ! 3) = newAddr (?objs ! 3)"
    "map_get (p_oldToNew (prepareCompaction ?objs 36 (Some 2))) (addr (?objs ! 3)) = None"
    by blast+
  then have b: "newAddr (p_objects (prepareCompaction ?objs 36 (Some 2)) ! 3) = None"
    "map_get (p_oldToNew (prepareCompaction ?objs 36 (Some 2))) 22 = None"
    by (simp_all add: default_mark)
  from t have "p_nextFree (prepareCompaction ?objs 36 (Some 2)) =
      sum_list (map size_of (filter marked ?objs))"
    by blast
  then have c: "p_nextFree (prepareCompaction ?objs 36 (Some 2)) = 10"
    by (simp add: default_mark)
  from d m a b c show ?thesis by simp
qed

theorem prepare_retargets_witness:
  "distinct (map addr (markReachable (sc_objects makeDefaultScenario) (Some 2))) \<and>
   marked (markReachable (sc_objects makeDefaultScenario) (Some 2) ! 2) \<and>
   fields_of (markReachable (sc_objects makeDefaultScenario) (Some 2) ! 0) ! 1 =
     Some (addr (markReachable (sc_objects makeDefaultScenario) (Some 2) ! 2)) \<and>
   newAddr (p_objects (prepareCompaction
      (markReachable (sc_objects makeDefaultScenario) (Some 2)) 36 (Some 2)) ! 2) = Some 7 \<and>
   fields_of (p_objects (prepareCompaction
      (markReachable (sc_objects makeDefaultScenario) (Some 2)) 36 (Some 2)) ! 0) ! 1 = Some 7 \<and>
   fields_of (markReachable (sc_objects makeDefaultScenario) (Some 2) ! 0) ! 2 = None \<and>
   fields_of (p_objects (prepareCompaction
      (markReachable (sc_objects makeDefaultScenario) (Some 2)) 36 (Some 2)) ! 0) ! 2 = None \<and>
   p_newRoot (prepareCompaction
      (markReachable (sc_objects makeDefaultScenario) (Some 2)) 36 (Some 2)) = Some 0"
proof -
  let ?objs = "markReachable (sc_objects makeDefaultScenario) (Some 2)"
  let ?p = "prepareCompaction ?objs 36 (Some 2)"
  have d: "distinct (map addr ?objs)"
    by (simp add: default_mark)
  note t = prepare_retargets[OF d, of 36 "Some 2"]
  have h: "0 < length ?objs" "2 < length ?objs" "1 < length (fields_of (?objs ! 0))"
    "2 < length (fields_of (?objs ! 0))"
    "marked (?objs ! 2)" "fields_of (?objs ! 0) ! 1 = Some (addr (?objs ! 2))"
    "fields_of (?objs ! 0) ! 2 = None"
    by (simp_all add: default_mark)
  from t h(1,2,3,5,6) have a: "newAddr (p_objects ?p ! 2) \<noteq> None"
    "fields_of (p_objects ?p ! 0) ! 1 = newAddr (p_objects ?p ! 2)"
    by blast+
  from t h(1,4,7) have b: "fields_of (p_objects ?p ! 0) ! 2 = fields_of (?objs ! 0) ! 2"
    by blast
  from t have c: "p_newRoot ?p = map_get (p_oldToNew ?p) 2"
    by simp
  have e: "newAddr (p_objects ?p ! 2) = Some 7" "map_get (p_oldToNew ?p) 2 = Some 0"
    by (simp_all add: default_prepare DAList.lookup_update)
  from d h a b c e show ?thesis by simp
qed

section \<open>What crunch computes\<close>

lemma crunch_loop_defined:
  assumes "\<forall>ob\<in>set xs. marked ob \<longrightarrow> map_get m (addr ob) \<noteq> None"
  shows "crunch_loop xs m kept =
     Inr (kept @ map (\<lambda>ob. ob\<lparr>addr := the (map_get m (addr ob)), newAddr := None,
                             marked := False\<rparr>) (filter marked xs))"
  using assms
proof (induction xs arbitrary: kept)
  case Nil
  then show ?case by simp
next
  case (Cons x xs)
  then show ?case by (cases "marked x") auto
qed

lemma prepared_marked_has_entry:
  assumes "ob \<in> set (p_objects (prepareCompaction objs memSize rootAddr))" "marked ob"
  shows "map_get (plan_map objs) (addr ob) \<noteq> None"
proof -
  from assms(1) obtain i where i: "i < length objs"
    and ob: "ob = p_objects (prepareCompaction objs memSize rootAddr) ! i"
    by (auto simp: in_set_conv_nth)
  from assms(2) have "marked (objs ! i)" "addr ob = addr (objs ! i)"
    using prepare_nth_marked_iff[OF i, of memSize rootAddr] by (simp_all add: ob)
  with i have "addr ob \<in> addr ` {ob \<in> set objs. marked ob}"
    by auto
  then have "addr ob \<in> fst ` set (map_entries (plan_map objs))"
    by (simp only: plan_map_keys)
  then show ?thesis
    by (simp add: DAList.lookup.rep_eq map_of_eq_None_iff)
qed

lemma prepared_marked_entry:
  assumes "distinct (map addr objs)"
    "ob \<in> set (p_objects (prepareCompaction objs memSize rootAddr))" "marked ob"
  shows "map_get (plan_map objs) (addr ob) = newAddr ob \<and> newAddr ob \<noteq> None"
proof -
  from assms(2) obtain i where i: "i < length objs"
    and ob: "ob = p_objects (prepareCompaction objs memSize rootAddr) ! i"
    by (auto simp: in_set_conv_nth)
  from assms(3) have m: "marked (objs ! i)" and a: "addr ob = addr (objs ! i)"
    using prepare_nth_marked_iff[OF i, of memSize rootAddr] by (simp_all add: ob)
  from prepare_nth_marked(1)[OF assms(1) i m, of memSize rootAddr]
    prepare_nth_marked(2)[OF assms(1) i m]
  show ?thesis
    by (simp add: ob[symmetric] a)
qed

lemma crunch_prepared_defined:
  "\<exists>objs3. crunch (p_objects (prepareCompaction objs memSize rootAddr))
              (p_oldToNew (prepareCompaction objs memSize rootAddr)) = Inr objs3"
  unfolding crunch_def
  by (subst crunch_loop_defined) (auto dest: prepared_marked_has_entry)

lemma crunch_prepared:
  assumes "distinct (map addr objs)"
  shows "crunch (p_objects (prepareCompaction objs memSize rootAddr))
           (p_oldToNew (prepareCompaction objs memSize rootAddr)) =
         Inr (map (\<lambda>ob. ob\<lparr>addr := the (newAddr ob), newAddr := None, marked := False\<rparr>)
                (filter marked (sortByAddr (p_objects (prepareCompaction objs memSize rootAddr)))))"
proof -
  let ?p = "prepareCompaction objs memSize rootAddr"
  have e: "\<forall>ob\<in>set (sortByAddr (p_objects ?p)). marked ob \<longrightarrow>
      map_get (plan_map objs) (addr ob) \<noteq> None"
    by (auto dest: prepared_marked_has_entry)
  have "map (\<lambda>ob. ob\<lparr>addr := the (map_get (plan_map objs) (addr ob)), newAddr := None,
                      marked := False\<rparr>) (filter marked (sortByAddr (p_objects ?p))) =
        map (\<lambda>ob. ob\<lparr>addr := the (newAddr ob), newAddr := None, marked := False\<rparr>)
          (filter marked (sortByAddr (p_objects ?p)))"
    using prepared_marked_entry[OF assms, of _ memSize rootAddr]
    by (intro map_cong refl) simp
  with crunch_loop_defined[OF e, of "[]"] show ?thesis
    by (simp add: crunch_def)
qed


subsection \<open>The order of the crunched objects\<close>

lemma plan_vals_ascending:
  assumes "\<forall>x\<in>set xs. 0 \<le> size_of x"
  shows "sorted (map (\<lambda>ob. the (newAddr ob)) (filter marked (plan_vals c xs))) \<and>
         (\<forall>ob\<in>set (filter marked (plan_vals c xs)). c \<le> the (newAddr ob))"
  using assms
proof (induction xs arbitrary: c)
  case Nil
  then show ?case by simp
next
  case (Cons x xs)
  then have sz: "0 \<le> size_of x" and rest: "\<forall>x\<in>set xs. 0 \<le> size_of x" by auto
  show ?case
  proof (cases "marked x")
    case True
    from Cons.IH[OF rest, of "c + size_of x"] sz True show ?thesis
      by fastforce
  next
    case False
    from Cons.IH[OF rest, of c] False show ?thesis by simp
  qed
qed

lemma crunched_ascending:
  assumes "\<forall>ob\<in>set objs. 0 \<le> size_of ob"
  shows "sorted (map (\<lambda>ob. the (newAddr ob))
           (filter marked (sortByAddr (p_objects (prepareCompaction objs memSize rootAddr)))))"
proof -
  let ?F = "\<lambda>ob. ob\<lparr>fields_of := map (retarget (plan_map objs)) (fields_of ob)\<rparr>"
  have "filter marked (map ?F (plan_vals 0 (sortByAddr objs))) =
      map ?F (filter marked (plan_vals 0 (sortByAddr objs)))"
    by (simp add: filter_map comp_def)
  then have "map (\<lambda>ob. the (newAddr ob))
        (filter marked (sortByAddr (p_objects (prepareCompaction objs memSize rootAddr)))) =
      map (\<lambda>ob. the (newAddr ob)) (filter marked (plan_vals 0 (sortByAddr objs)))"
    by (simp add: sortByAddr_prepared comp_def)
  moreover have "\<forall>x\<in>set (sortByAddr objs). 0 \<le> size_of x"
    using assms by simp
  ultimately show ?thesis
    using plan_vals_ascending[of "sortByAddr objs" 0] by simp
qed

section \<open>The commands in their phases\<close>

lemma doMark_Idle:
  "phase s = Idle \<Longrightarrow>
   doMark s = Inr ((pushHistory s)\<lparr>objects := markReachable (objects s) (root s), phase := Mark\<rparr>)"
  by (simp add: doMark_def deepClone_def)

lemma doPrepare_Mark:
  "phase s = Mark \<Longrightarrow>
   doPrepare s =
     Inr ((pushHistory s)
       \<lparr>objects := p_objects (prepareCompaction (objects s) (memorySize (scenario s)) (root s)),
        mapping := p_oldToNew (prepareCompaction (objects s) (memorySize (scenario s)) (root s)),
        root := p_newRoot (prepareCompaction (objects s) (memorySize (scenario s)) (root s)),
        nextFree := p_nextFree (prepareCompaction (objects s) (memorySize (scenario s)) (root s)),
        phase := Prepare\<rparr>)"
  by (simp add: doPrepare_def deepClone_def Let_def)

lemma doCrunch_Prepare:
  "phase s = Prepare \<Longrightarrow> crunch (objects s) (mapping s) = Inr objs \<Longrightarrow>
   doCrunch s = Inr ((pushHistory s)\<lparr>objects := objs, phase := Crunch\<rparr>)"
  by (simp add: doCrunch_def deepClone_def)

lemma init_default:
  "objects (init_state makeDefaultScenario) = sc_objects makeDefaultScenario"
  "root (init_state makeDefaultScenario) = Some 2"
  "phase (init_state makeDefaultScenario) = Idle"
  "memorySize (scenario (init_state makeDefaultScenario)) = 36"
  by (simp_all add: init_state_def deepClone_def makeDefaultScenario_def)

lemma goPrev_empty: "history s = [] \<Longrightarrow> goPrev s = Inr s"
  by (simp add: goPrev_def)

lemma goPrev_snoc:
  "history s = h @ [snap] \<Longrightarrow>
   goPrev s = Inr (s\<lparr>objects := snap_objects snap, root := snap_root snap,
                     phase := snap_phase snap, mapping := new_Map (snap_mapping snap),
                     nextFree := snap_nextFree snap, history := h\<rparr>)"
  by (simp add: goPrev_def deepClone_def)

lemma goPrev_takeSnap:
  "history s = h @ [takeSnap s'] \<Longrightarrow>
   goPrev s = Inr (s\<lparr>objects := objects s', root := root s', phase := phase s',
                     mapping := mapping s', nextFree := nextFree s', history := h\<rparr>)"
  by (simp add: goPrev_snoc takeSnap_def new_Map_entries deepClone_def)

lemma goPrev_pushHistory:
  "goPrev ((pushHistory s)\<lparr>objects := a, root := b, phase := c, mapping := d, nextFree := e\<rparr>) =
     Inr s"
proof -
  let ?t = "(pushHistory s)\<lparr>objects := a, root := b, phase := c, mapping := d, nextFree := e\<rparr>"
  have "history ?t = history s @ [takeSnap s]"
    by (simp add: pushHistory_def)
  from goPrev_takeSnap[OF this] show ?thesis
    by (simp add: pushHistory_def)
qed

lemma doMark_undo:
  assumes "phase s = Idle"
  obtains s1 where "doMark s = Inr s1" "phase s1 = Mark" "goPrev s1 = Inr s"
    "objects s1 = markReachable (objects s) (root s)"
proof -
  let ?s1 = "(pushHistory s)\<lparr>objects := markReachable (objects s) (root s), phase := Mark\<rparr>"
  have "?s1 = (pushHistory s)\<lparr>objects := markReachable (objects s) (root s), root := root s,
      phase := Mark, mapping := mapping s, nextFree := nextFree s\<rparr>"
    by (simp add: pushHistory_def)
  then have "goPrev ?s1 = Inr s"
    by (simp only: goPrev_pushHistory)
  with doMark_Idle[OF assms] show ?thesis
    by (intro that[of ?s1]) simp_all
qed

lemma doPrepare_undo:
  assumes "phase s = Mark"
  obtains s2 where "doPrepare s = Inr s2" "phase s2 = Prepare" "goPrev s2 = Inr s"
    "objects s2 = p_objects (prepareCompaction (objects s) (memorySize (scenario s)) (root s))"
    "mapping s2 = p_oldToNew (prepareCompaction (objects s) (memorySize (scenario s)) (root s))"
    "root s2 = p_newRoot (prepareCompaction (objects s) (memorySize (scenario s)) (root s))"
    "nextFree s2 = p_nextFree (prepareCompaction (objects s) (memorySize (scenario s)) (root s))"
proof -
  let ?p = "prepareCompaction (objects s) (memorySize (scenario s)) (root s)"
  let ?s2 = "(pushHistory s)\<lparr>objects := p_objects ?p, mapping := p_oldToNew ?p,
      root := p_newRoot ?p, nextFree := p_nextFree ?p, phase := Prepare\<rparr>"
  have "?s2 = (pushHistory s)\<lparr>objects := p_objects ?p, root := p_newRoot ?p,
      phase := Prepare, mapping := p_oldToNew ?p, nextFree := p_nextFree ?p\<rparr>"
    by simp
  then have "goPrev ?s2 = Inr s"
    by (simp only: goPrev_pushHistory)
  with doPrepare_Mark[OF assms] show ?thesis
    by (intro that[of ?s2]) simp_all
qed

lemma doCrunch_undo:
  assumes "phase s = Prepare" "crunch (objects s) (mapping s) = Inr objs3"
  obtains s3 where "doCrunch s = Inr s3" "phase s3 = Crunch" "goPrev s3 = Inr s"
    "objects s3 = objs3" "root s3 = root s" "nextFree s3 = nextFree s" "mapping s3 = mapping s"
proof -
  let ?s3 = "(pushHistory s)\<lparr>objects := objs3, phase := Crunch\<rparr>"
  have "?s3 = (pushHistory s)\<lparr>objects := objs3, root := root s,
      phase := Crunch, mapping := mapping s, nextFree := nextFree s\<rparr>"
    by (simp add: pushHistory_def)
  then have "goPrev ?s3 = Inr s"
    by (simp only: goPrev_pushHistory)
  with doCrunch_Prepare[OF assms] show ?thesis
    by (intro that[of ?s3]) (simp_all add: pushHistory_def)
qed

section \<open>History\<close>

text \<open>
  Claim C9, as the code has it. Undo takes the last snapshot off the history and puts
  its objects, root, phase, mapping and nextFree into the state; for a snapshot taken
  of a state these are the values of that state. With an empty history undo returns
  normally and gives the state as it is: nothing is signalled.
\<close>

theorem undo_restores:
  "(history s = h @ [snap] \<longrightarrow>
      goPrev s = Inr (s\<lparr>objects := snap_objects snap, root := snap_root snap,
                        phase := snap_phase snap, mapping := new_Map (snap_mapping snap),
                        nextFree := snap_nextFree snap, history := h\<rparr>)) \<and>
   (history s = h @ [takeSnap s'] \<longrightarrow>
      goPrev s = Inr (s\<lparr>objects := objects s', root := root s', phase := phase s',
                        mapping := mapping s', nextFree := nextFree s', history := h\<rparr>)) \<and>
   (history s = [] \<longrightarrow> goPrev s = Inr s)"
  using goPrev_empty[of s] goPrev_snoc[of s h snap] goPrev_takeSnap[of s h s']
  by blast

theorem undo_restores_witness:
  "history (init_state makeDefaultScenario) = [] \<and>
   goPrev (init_state makeDefaultScenario) = Inr (init_state makeDefaultScenario) \<and>
   history ((init_state makeDefaultScenario)
      \<lparr>phase := Mark, history := [takeSnap (init_state makeDefaultScenario)]\<rparr>) =
     [] @ [takeSnap (init_state makeDefaultScenario)] \<and>
   goPrev ((init_state makeDefaultScenario)
      \<lparr>phase := Mark, history := [takeSnap (init_state makeDefaultScenario)]\<rparr>) =
     Inr (init_state makeDefaultScenario)"
proof -
  let ?s0 = "init_state makeDefaultScenario"
  let ?s1 = "?s0\<lparr>phase := Mark, history := [takeSnap ?s0]\<rparr>"
  have h0: "history ?s0 = []" by (simp add: init_state_def)
  have h1: "history ?s1 = [] @ [takeSnap ?s0]" by simp
  from undo_restores[of ?s0 "[]" "takeSnap ?s0" ?s0] h0
  have a: "goPrev ?s0 = Inr ?s0" by simp
  from undo_restores[of ?s1 "[]" "takeSnap ?s0" ?s0] h1
  have "goPrev ?s1 = Inr (?s1\<lparr>objects := objects ?s0, root := root ?s0, phase := phase ?s0,
      mapping := mapping ?s0, nextFree := nextFree ?s0, history := []\<rparr>)"
    by blast
  also have "?s1\<lparr>objects := objects ?s0, root := root ?s0, phase := phase ?s0,
      mapping := mapping ?s0, nextFree := nextFree ?s0, history := []\<rparr> = ?s0"
    by (simp add: init_state_def)
  finally have b: "goPrev ?s1 = Inr ?s0" .
  from h0 a h1 b show ?thesis by blast
qed

text \<open>
  Claim C9 as stated fails: with the empty history of the initial state, undo does not
  end in NoHistoryError.
\<close>

theorem undo_empty_counterexample:
  "history (init_state makeDefaultScenario) = [] \<and>
   goPrev (init_state makeDefaultScenario) \<noteq> Inl NoHistoryError"
  by (simp add: goPrev_def init_state_def)

section \<open>Commands outside their phase\<close>

text \<open>
  Claim C8, as the code has it. prepare outside phase Mark, crunch outside phase Prepare
  and a change of root outside phase Idle return normally and give the state as it
  is: nothing is signalled.
\<close>

theorem wrong_phase_is_noop:
  "(phase s \<noteq> Mark \<longrightarrow> doPrepare s = Inr s) \<and>
   (phase s \<noteq> Prepare \<longrightarrow> doCrunch s = Inr s) \<and>
   (phase s \<noteq> Idle \<longrightarrow> changeRoot a s = Inr s)"
  by (simp add: doPrepare_def doCrunch_def changeRoot_def)

theorem wrong_phase_is_noop_witness:
  "phase ((init_state makeDefaultScenario)\<lparr>phase := Crunch\<rparr>) = Crunch \<and>
   doPrepare ((init_state makeDefaultScenario)\<lparr>phase := Crunch\<rparr>) =
     Inr ((init_state makeDefaultScenario)\<lparr>phase := Crunch\<rparr>) \<and>
   doCrunch ((init_state makeDefaultScenario)\<lparr>phase := Crunch\<rparr>) =
     Inr ((init_state makeDefaultScenario)\<lparr>phase := Crunch\<rparr>) \<and>
   changeRoot 8 ((init_state makeDefaultScenario)\<lparr>phase := Crunch\<rparr>) =
     Inr ((init_state makeDefaultScenario)\<lparr>phase := Crunch\<rparr>)"
  using wrong_phase_is_noop[of "(init_state makeDefaultScenario)\<lparr>phase := Crunch\<rparr>" 8]
  by simp

text \<open>
  Claim C8 as stated fails: in the initial state, which is in phase Idle, prepare and
  crunch do not end in InvalidPhaseError, and neither does a change of root in phase
  Crunch.
\<close>

theorem wrong_phase_counterexample:
  "phase (init_state makeDefaultScenario) \<noteq> Mark \<and>
   doPrepare (init_state makeDefaultScenario) \<noteq> Inl InvalidPhaseError \<and>
   phase (init_state makeDefaultScenario) \<noteq> Prepare \<and>
   doCrunch (init_state makeDefaultScenario) \<noteq> Inl InvalidPhaseError \<and>
   phase ((init_state makeDefaultScenario)\<lparr>phase := Crunch\<rparr>) \<noteq> Idle \<and>
   changeRoot 8 ((init_state makeDefaultScenario)\<lparr>phase := Crunch\<rparr>) \<noteq> Inl InvalidPhaseError"
  by (simp add: doPrepare_def doCrunch_def changeRoot_def init_state_def)

section \<open>A cycle and its undoing\<close>

text \<open>
  Claim C5. From a state in phase Idle the commands mark, prepare and crunch succeed
  one after the other, each into its phase, and three undos then go back through the
  same states: the third gives the state before mark, with the same objects, root,
  phase, mapping and nextFree (and the same history and scenario).
\<close>

theorem undo_round_trip:
  assumes "phase s = Idle"
  shows "\<exists>s1 s2 s3.
     doMark s = Inr s1 \<and> phase s1 = Mark \<and>
     doPrepare s1 = Inr s2 \<and> phase s2 = Prepare \<and>
     doCrunch s2 = Inr s3 \<and> phase s3 = Crunch \<and>
     goPrev s3 = Inr s2 \<and> goPrev s2 = Inr s1 \<and> goPrev s1 = Inr s"
proof -
  from assms obtain s1 where s1: "doMark s = Inr s1" "phase s1 = Mark" "goPrev s1 = Inr s"
    by (rule doMark_undo)
  from s1(2) obtain s2 where s2: "doPrepare s1 = Inr s2" "phase s2 = Prepare"
    "goPrev s2 = Inr s1"
    "objects s2 = p_objects (prepareCompaction (objects s1) (memorySize (scenario s1)) (root s1))"
    "mapping s2 = p_oldToNew (prepareCompaction (objects s1) (memorySize (scenario s1)) (root s1))"
    by (rule doPrepare_undo)
  from crunch_prepared_defined[of "objects s1" "memorySize (scenario s1)" "root s1"]
  obtain objs3 where "crunch (objects s2) (mapping s2) = Inr objs3"
    by (auto simp: s2(4,5))
  with s2(2) obtain s3 where s3: "doCrunch s2 = Inr s3" "phase s3 = Crunch" "goPrev s3 = Inr s2"
    by (rule doCrunch_undo)
  from s1 s2(1-3) s3 show ?thesis by blast
qed

theorem undo_round_trip_witness:
  "phase (init_state makeDefaultScenario) = Idle \<and>
   and_then (and_then (and_then (and_then (and_then
     (doMark (init_state makeDefaultScenario)) doPrepare) doCrunch) goPrev) goPrev) goPrev =
     Inr (init_state makeDefaultScenario)"
proof -
  have i: "phase (init_state makeDefaultScenario) = Idle"
    by (simp add: init_state_def)
  from undo_round_trip[OF i] i show ?thesis
    by (auto simp: and_then_def)
qed

section \<open>Crunch on a prepared state\<close>

lemma length_filter_insort_key:
  "length (filter P (insort_key f x xs)) = length (filter P (x # xs))"
  by (induction xs) auto

lemma length_filter_sort_key: "length (filter P (sort_key f xs)) = length (filter P xs)"
  by (induction xs) (auto simp: length_filter_insort_key)

text \<open>
  Claim C2. Let prepare take a state in phase Mark, whose objects have distinct
  addresses and sizes that are not negative, to a state in phase Prepare. Then crunch
  succeeds on it; its objects are the marked objects of the prepared state, in
  ascending order of their old addresses, each at its planned address, unmarked and
  without planned address, and there are as many as marked objects; their addresses
  ascend; root, nextFree and mapping are those of the prepared state.
\<close>

theorem crunch_keeps_marked:
  assumes "phase s = Mark" "distinct (map addr (objects s))"
    "\<forall>ob\<in>set (objects s). 0 \<le> size_of ob" "doPrepare s = Inr s2"
  shows "phase s2 = Prepare \<and>
     (\<forall>ob\<in>set (objects s2). marked ob \<longrightarrow> newAddr ob \<noteq> None) \<and>
     (\<exists>s3. doCrunch s2 = Inr s3 \<and>
        objects s3 =
          map (\<lambda>ob. ob\<lparr>addr := the (newAddr ob), newAddr := None, marked := False\<rparr>)
            (filter marked (sortByAddr (objects s2))) \<and>
        length (objects s3) = length (filter marked (objects s2)) \<and>
        sorted (map addr (objects s3)) \<and>
        root s3 = root s2 \<and> nextFree s3 = nextFree s2 \<and> mapping s3 = mapping s2 \<and>
        phase s3 = Crunch)"
proof -
  let ?p = "prepareCompaction (objects s) (memorySize (scenario s)) (root s)"
  from assms(1) obtain t where t: "doPrepare s = Inr t" "phase t = Prepare"
    "objects t = p_objects ?p" "mapping t = p_oldToNew ?p"
    by (rule doPrepare_undo)
  with assms(4) have s2: "phase s2 = Prepare" "objects s2 = p_objects ?p"
    "mapping s2 = p_oldToNew ?p"
    by simp_all
  let ?kept = "map (\<lambda>ob. ob\<lparr>addr := the (newAddr ob), newAddr := None, marked := False\<rparr>)
      (filter marked (sortByAddr (objects s2)))"
  have c: "crunch (objects s2) (mapping s2) = Inr ?kept"
    using crunch_prepared[OF assms(2), of "memorySize (scenario s)" "root s"]
    by (simp only: s2)
  from s2(1) c obtain s3 where s3: "doCrunch s2 = Inr s3" "phase s3 = Crunch"
    "objects s3 = ?kept" "root s3 = root s2" "nextFree s3 = nextFree s2"
    "mapping s3 = mapping s2"
    by (rule doCrunch_undo)
  have n: "\<forall>ob\<in>set (objects s2). marked ob \<longrightarrow> newAddr ob \<noteq> None"
    using prepared_marked_entry[OF assms(2), of _ "memorySize (scenario s)" "root s"]
    by (simp add: s2)
  have l: "length (objects s3) = length (filter marked (objects s2))"
    by (simp add: s3(3) sortByAddr_def length_filter_sort_key)
  have "map addr ?kept =
      map (\<lambda>ob. the (newAddr ob)) (filter marked (sortByAddr (objects s2)))"
    by simp
  then have a: "sorted (map addr (objects s3))"
    using crunched_ascending[OF assms(3), of "memorySize (scenario s)" "root s"]
    by (simp only: s3(3) s2(2))
  from s2(1) n s3 l a show ?thesis by blast
qed

theorem crunch_keeps_marked_witness:
  "(\<exists>s1 s2 s3.
      doMark (init_state makeDefaultScenario) = Inr s1 \<and> phase s1 = Mark \<and>
      distinct (map addr (objects s1)) \<and>
      list_all (\<lambda>ob. 0 \<le> size_of ob) (objects s1) \<and>
      doPrepare s1 = Inr s2 \<and> doCrunch s2 = Inr s3 \<and>
      map (\<lambda>ob. (id_of ob, newAddr ob)) (filter marked (sortByAddr (objects s2))) =
        [(''A'', Some 0), (''B'', Some 4), (''C'', Some 7)] \<and>
      map (\<lambda>ob. (id_of ob, addr ob, marked ob, newAddr ob)) (objects s3) =
        [(''A'', 0, False, None), (''B'', 4, False, None), (''C'', 7, False, None)] \<and>
      root s3 = root s2 \<and> nextFree s3 = nextFree s2)"
proof -
  let ?s0 = "init_state makeDefaultScenario"
  have i: "phase ?s0 = Idle" by (simp add: init_default)
  from i obtain s1 where s1: "doMark ?s0 = Inr s1" "phase s1 = Mark"
    "objects s1 = markReachable (objects ?s0) (root ?s0)"
    using doMark_undo[of ?s0] by metis
  from s1(2) obtain s2 where s2: "doPrepare s1 = Inr s2"
    "objects s2 = p_objects (prepareCompaction (objects s1) (memorySize (scenario s1)) (root s1))"
    using doPrepare_undo[of s1] by metis
  have o1: "objects s1 = markReachable (sc_objects makeDefaultScenario) (Some 2)"
    by (simp add: s1(3) init_default)
  have d: "distinct (map addr (objects s1))"
    by (simp add: o1 default_mark)
  have z: "\<forall>ob\<in>set (objects s1). 0 \<le> size_of ob"
    by (simp add: o1 default_mark)
  from crunch_keeps_marked[OF s1(2) d z s2(1)] obtain s3 where
    s3: "doCrunch s2 = Inr s3"
      "objects s3 =
        map (\<lambda>ob. ob\<lparr>addr := the (newAddr ob), newAddr := None, marked := False\<rparr>)
          (filter marked (sortByAddr (objects s2)))"
      "root s3 = root s2" "nextFree s3 = nextFree s2"
    by blast
  have r1: "root s1 = Some 2" "memorySize (scenario s1) = 36"
    using s1(1) doMark_Idle[OF i] by (auto simp: pushHistory_def init_default)
  have o2: "map (\<lambda>ob. (id_of ob, newAddr ob)) (filter marked (sortByAddr (objects s2))) =
      [(''A'', Some 0), (''B'', Some 4), (''C'', Some 7)]"
    by (simp add: s2(2) o1 r1 default_prepare sortByAddr_def)
  have o3: "map (\<lambda>ob. (id_of ob, addr ob, marked ob, newAddr ob)) (objects s3) =
      [(''A'', 0, False, None), (''B'', 4, False, None), (''C'', 7, False, None)]"
    by (simp add: s3(2) s2(2) o1 r1 default_prepare sortByAddr_def)
  have z': "list_all (\<lambda>ob. 0 \<le> size_of ob) (objects s1)"
    using z by (simp add: list_all_iff)
  show ?thesis
    by (rule exI[of _ s1], rule exI[of _ s2], rule exI[of _ s3], intro conjI)
      (rule s1(1) s1(2) d z' s2(1) s3(1) o2 o3 s3(3) s3(4))+
qed

section \<open>Inserting an object\<close>

lemma foldl_max_ge:
  "m \<le> foldl (\<lambda>m ob. max m (addr ob + size_of ob)) m objs"
  "ob \<in> set objs \<Longrightarrow> addr ob + size_of ob \<le> foldl (\<lambda>m ob. max m (addr ob + size_of ob)) m objs"
proof (induction objs arbitrary: m)
  case Nil
  { case 1 show ?case by simp }
  { case 2 then show ?case by simp }
next
  case (Cons x xs)
  { case 1
    from Cons.IH(1)[of "max m (addr x + size_of x)"] show ?case by simp }
  { case 2
    then show ?case
      using Cons.IH(1)[of "max m (addr x + size_of x)"] Cons.IH(2)[of "max m (addr x + size_of x)"]
      by auto }
qed

lemma lastEnd_nonneg: "0 \<le> lastEnd objs"
  unfolding lastEnd_def by (rule foldl_max_ge(1))

lemma lastEnd_ge: "ob \<in> set objs \<Longrightarrow> addr ob + size_of ob \<le> lastEnd objs"
  unfolding lastEnd_def by (rule foldl_max_ge(2))

text \<open>
  Claim C7, as the code has it. Outside phase Idle, and in phase Idle when fewer than
  three cells lie between the end of the last object and the end of the memory,
  addGarbage returns normally and gives the state as it is: nothing is signalled. In
  phase Idle with at least four such cells it adds an object of size 3 with two null
  fields, one cell after the end of the last object; the object ends within the
  memory and starts after the end of every object of the heap.
\<close>

theorem addGarbage_guarded:
  "(phase s \<noteq> Idle \<or> memorySize (scenario s) - lastEnd (objects s) < 3 \<longrightarrow>
      addGarbage gid s = Inr s) \<and>
   (phase s = Idle \<and> 4 \<le> memorySize (scenario s) - lastEnd (objects s) \<longrightarrow>
      (\<exists>g. addGarbage gid s = Inr (s\<lparr>objects := sortByAddr (objects s @ [g])\<rparr>) \<and>
           g = \<lparr>id_of = gid, addr = lastEnd (objects s) + 1, size_of = 3,
                fields_of = [None, None], marked = False, newAddr = None\<rparr> \<and>
           0 \<le> addr g \<and> addr g + size_of g \<le> memorySize (scenario s) \<and>
           (\<forall>ob\<in>set (objects s). addr ob + size_of ob \<le> addr g)))"
proof (intro conjI impI)
  assume "phase s \<noteq> Idle \<or> memorySize (scenario s) - lastEnd (objects s) < 3"
  then show "addGarbage gid s = Inr s"
    by (auto simp: addGarbage_def Let_def)
next
  assume h: "phase s = Idle \<and> 4 \<le> memorySize (scenario s) - lastEnd (objects s)"
  let ?g = "\<lparr>id_of = gid, addr = lastEnd (objects s) + 1, size_of = 3,
      fields_of = [None, None], marked = False, newAddr = None\<rparr>"
  from h have "addGarbage gid s = Inr (s\<lparr>objects := sortByAddr (objects s @ [?g])\<rparr>)"
    by (simp add: addGarbage_def Let_def)
  moreover have "0 \<le> addr ?g"
    using lastEnd_nonneg[of "objects s"] by simp
  moreover from h have "addr ?g + size_of ?g \<le> memorySize (scenario s)"
    by simp
  moreover have "\<forall>ob\<in>set (objects s). addr ob + size_of ob \<le> addr ?g"
    using lastEnd_ge[of _ "objects s"] by fastforce
  ultimately show "\<exists>g. addGarbage gid s = Inr (s\<lparr>objects := sortByAddr (objects s @ [g])\<rparr>) \<and>
           g = \<lparr>id_of = gid, addr = lastEnd (objects s) + 1, size_of = 3,
                fields_of = [None, None], marked = False, newAddr = None\<rparr> \<and>
           0 \<le> addr g \<and> addr g + size_of g \<le> memorySize (scenario s) \<and>
           (\<forall>ob\<in>set (objects s). addr ob + size_of ob \<le> addr g)"
    by blast
qed

lemma default_lastEnd: "lastEnd (sc_objects makeDefaultScenario) = 27"
  by (simp add: lastEnd_def makeDefaultScenario_def)

theorem addGarbage_guarded_witness:
  "phase ((init_state makeDefaultScenario)\<lparr>phase := Mark\<rparr>) = Mark \<and>
   addGarbage ''G10'' ((init_state makeDefaultScenario)\<lparr>phase := Mark\<rparr>) =
     Inr ((init_state makeDefaultScenario)\<lparr>phase := Mark\<rparr>) \<and>
   phase (init_state makeDefaultScenario) = Idle \<and>
   memorySize (scenario (init_state makeDefaultScenario)) -
     lastEnd (objects (init_state makeDefaultScenario)) = 9 \<and>
   addGarbage ''G10'' (init_state makeDefaultScenario) =
     Inr ((init_state makeDefaultScenario)
       \<lparr>objects := sortByAddr (objects (init_state makeDefaultScenario) @
          [\<lparr>id_of = ''G10'', addr = 28, size_of = 3, fields_of = [None, None],
            marked = False, newAddr = None\<rparr>])\<rparr>)"
proof -
  let ?s0 = "init_state makeDefaultScenario"
  let ?s1 = "?s0\<lparr>phase := Mark\<rparr>"
  have a: "addGarbage ''G10'' ?s1 = Inr ?s1"
    using addGarbage_guarded[of ?s1 "''G10''"] by simp
  have f: "phase ?s0 = Idle" "memorySize (scenario ?s0) - lastEnd (objects ?s0) = 9"
    by (simp_all add: init_default default_lastEnd)
  with addGarbage_guarded[of ?s0 "''G10''"]
  have "addGarbage ''G10'' ?s0 =
      Inr (?s0\<lparr>objects := sortByAddr (objects ?s0 @
        [\<lparr>id_of = ''G10'', addr = lastEnd (objects ?s0) + 1, size_of = 3,
          fields_of = [None, None], marked = False, newAddr = None\<rparr>])\<rparr>)"
    by auto
  then have b: "addGarbage ''G10'' ?s0 =
      Inr (?s0\<lparr>objects := sortByAddr (objects ?s0 @
        [\<lparr>id_of = ''G10'', addr = 28, size_of = 3,
          fields_of = [None, None], marked = False, newAddr = None\<rparr>])\<rparr>)"
    by (simp add: init_default default_lastEnd)
  from a f b show ?thesis by simp
qed

text \<open>
  Claim C7 as stated fails twice. With the default objects in a memory of 30 cells
  three cells are free after the last object, which ends at 27: the new object is put
  at 28 and ends at 31, beyond the memory, and the insertion is not rejected. And
  where the insertion is rejected, here in the default scenario after two insertions
  (the last object ends at 35 of 36 cells), nothing is signalled: the result is not
  InsufficientSpaceError.
\<close>

theorem addGarbage_counterexample:
  "phase (init_state (makeDefaultScenario\<lparr>memorySize := 30\<rparr>)) = Idle \<and>
   memorySize (scenario (init_state (makeDefaultScenario\<lparr>memorySize := 30\<rparr>))) = 30 \<and>
   lastEnd (objects (init_state (makeDefaultScenario\<lparr>memorySize := 30\<rparr>))) = 27 \<and>
   addGarbage ''G10'' (init_state (makeDefaultScenario\<lparr>memorySize := 30\<rparr>)) =
     Inr ((init_state (makeDefaultScenario\<lparr>memorySize := 30\<rparr>))
       \<lparr>objects := sc_objects makeDefaultScenario @
          [\<lparr>id_of = ''G10'', addr = 28, size_of = 3, fields_of = [None, None],
            marked = False, newAddr = None\<rparr>]\<rparr>) \<and>
   addGarbage ''G10'' (init_state (makeDefaultScenario\<lparr>memorySize := 30\<rparr>)) \<noteq>
     Inr (init_state (makeDefaultScenario\<lparr>memorySize := 30\<rparr>)) \<and>
   addGarbage ''G10'' (init_state (makeDefaultScenario\<lparr>memorySize := 30\<rparr>)) \<noteq>
     Inl InsufficientSpaceError \<and>
   addGarbage ''G10'' (init_state makeDefaultScenario) =
     Inr ((init_state makeDefaultScenario)
       \<lparr>objects := sc_objects makeDefaultScenario @
          [\<lparr>id_of = ''G10'', addr = 28, size_of = 3, fields_of = [None, None],
            marked = False, newAddr = None\<rparr>]\<rparr>) \<and>
   addGarbage ''G11'' ((init_state makeDefaultScenario)
       \<lparr>objects := sc_objects makeDefaultScenario @
          [\<lparr>id_of = ''G10'', addr = 28, size_of = 3, fields_of = [None, None],
            marked = False, newAddr = None\<rparr>]\<rparr>) =
     Inr ((init_state makeDefaultScenario)
       \<lparr>objects := sc_objects makeDefaultScenario @
          [\<lparr>id_of = ''G10'', addr = 28, size_of = 3, fields_of = [None, None],
            marked = False, newAddr = None\<rparr>,
           \<lparr>id_of = ''G11'', addr = 32, size_of = 3, fields_of = [None, None],
            marked = False, newAddr = None\<rparr>]\<rparr>) \<and>
   phase ((init_state makeDefaultScenario)
       \<lparr>objects := sc_objects makeDefaultScenario @
          [\<lparr>id_of = ''G10'', addr = 28, size_of = 3, fields_of = [None, None],
            marked = False, newAddr = None\<rparr>,
           \<lparr>id_of = ''G11'', addr = 32, size_of = 3, fields_of = [None, None],
            marked = False, newAddr = None\<rparr>]\<rparr>) = Idle \<and>
   memorySize (scenario ((init_state makeDefaultScenario)
       \<lparr>objects := sc_objects makeDefaultScenario @
          [\<lparr>id_of = ''G10'', addr = 28, size_of = 3, fields_of = [None, None],
            marked = False, newAddr = None\<rparr>,
           \<lparr>id_of = ''G11'', addr = 32, size_of = 3, fields_of = [None, None],
            marked = False, newAddr = None\<rparr>]\<rparr>)) = 36 \<and>
   lastEnd (objects ((init_state makeDefaultScenario)
       \<lparr>objects := sc_objects makeDefaultScenario @
          [\<lparr>id_of = ''G10'', addr = 28, size_of = 3, fields_of = [None, None],
            marked = False, newAddr = None\<rparr>,
           \<lparr>id_of = ''G11'', addr = 32, size_of = 3, fields_of = [None, None],
            marked = False, newAddr = None\<rparr>]\<rparr>)) = 35 \<and>
   addGarbage ''G12'' ((init_state makeDefaultScenario)
       \<lparr>objects := sc_objects makeDefaultScenario @
          [\<lparr>id_of = ''G10'', addr = 28, size_of = 3, fields_of = [None, None],
            marked = False, newAddr = None\<rparr>,
           \<lparr>id_of = ''G11'', addr = 32, size_of = 3, fields_of = [None, None],
            marked = False, newAddr = None\<rparr>]\<rparr>) \<noteq> Inl InsufficientSpaceError"
proof -
  let ?t = "init_state (makeDefaultScenario\<lparr>memorySize := 30\<rparr>)"
  let ?g = "\<lparr>id_of = ''G10'', addr = 28, size_of = 3, fields_of = [None, None],
      marked = False, newAddr = None\<rparr>"
  let ?t' = "?t\<lparr>objects := sc_objects makeDefaultScenario @ [?g]\<rparr>"
  have t: "phase ?t = Idle" "memorySize (scenario ?t) = 30"
    by (simp_all add: init_state_def)
  have ot: "objects ?t = sc_objects makeDefaultScenario"
    by (simp add: init_state_def deepClone_def)
  have lt: "lastEnd (objects ?t) = 27"
    by (simp add: ot default_lastEnd)
  have a: "addGarbage ''G10'' ?t = Inr ?t'"
    by (simp add: addGarbage_def ot default_lastEnd t)
      (simp add: init_state_def makeDefaultScenario_def sortByAddr_def)
  have "?t' \<noteq> ?t"
  proof
    assume "?t' = ?t"
    then have "objects ?t' = objects ?t" by (simp only:)
    then show False by (simp add: ot)
  qed
  with a have n: "addGarbage ''G10'' ?t \<noteq> Inr ?t" "addGarbage ''G10'' ?t \<noteq> Inl InsufficientSpaceError"
    by simp_all
  let ?s0 = "init_state makeDefaultScenario"
  let ?h = "\<lparr>id_of = ''G11'', addr = 32, size_of = 3, fields_of = [None, None],
      marked = False, newAddr = None\<rparr>"
  let ?s1 = "?s0\<lparr>objects := sc_objects makeDefaultScenario @ [?g]\<rparr>"
  let ?s2 = "?s0\<lparr>objects := sc_objects makeDefaultScenario @ [?g, ?h]\<rparr>"
  have l1: "lastEnd (sc_objects makeDefaultScenario @ [?g]) = 31"
    by (simp add: lastEnd_def makeDefaultScenario_def)
  have l2: "lastEnd (sc_objects makeDefaultScenario @ [?g, ?h]) = 35"
    by (simp add: lastEnd_def makeDefaultScenario_def)
  have c1: "addGarbage ''G10'' ?s0 = Inr ?s1"
    by (simp add: addGarbage_def init_default default_lastEnd)
      (simp add: makeDefaultScenario_def sortByAddr_def)
  have c2: "addGarbage ''G11'' ?s1 = Inr ?s2"
    by (simp add: addGarbage_def init_default l1)
      (simp add: makeDefaultScenario_def sortByAddr_def)
  have c3: "phase ?s2 = Idle" "memorySize (scenario ?s2) = 36" "lastEnd (objects ?s2) = 35"
    by (simp_all add: init_default l2)
  have "addGarbage ''G12'' ?s2 = Inr ?s2"
    by (simp add: addGarbage_def init_default l2)
  then have c4: "addGarbage ''G12'' ?s2 \<noteq> Inl InsufficientSpaceError"
    by simp
  show ?thesis
    by (intro conjI) (rule t lt a n c1 c2 c3 c4)+
qed

section \<open>The default scenario\<close>

text \<open>
  Claim C6. On the default scenario (memory size 36; A at 2 with size 4 and fields
  8, 14, null; B at 8 with size 3 and fields 14, null; C at 14 with size 3; D at 22 with
  size 5; root 2) the three commands succeed one after the other. After mark A, B and C
  are marked and D is not; after prepare the mapping has the entries 2 to 0, 8 to 4 and
  14 to 7, the fields of A are 4, 7, null, the root is 0 and nextFree is 10; after crunch
  the objects are A, B and C at the addresses 0, 4 and 7, and D is gone.
\<close>

theorem default_scenario_cycle:
  "\<exists>s1 s2 s3.
     doMark (init_state makeDefaultScenario) = Inr s1 \<and>
     doPrepare s1 = Inr s2 \<and>
     doCrunch s2 = Inr s3 \<and>
     memorySize (scenario (init_state makeDefaultScenario)) = 36 \<and>
     root (init_state makeDefaultScenario) = Some 2 \<and>
     map (\<lambda>ob. (id_of ob, addr ob, size_of ob, fields_of ob))
         (objects (init_state makeDefaultScenario)) =
       [(''A'', 2, 4, [Some 8, Some 14, None]), (''B'', 8, 3, [Some 14, None]),
        (''C'', 14, 3, [None, None]), (''D'', 22, 5, [None, None, None, None])] \<and>
     map (\<lambda>ob. (id_of ob, marked ob)) (objects s1) =
       [(''A'', True), (''B'', True), (''C'', True), (''D'', False)] \<and>
     map_entries (mapping s2) = [(2, 0), (8, 4), (14, 7)] \<and>
     map (\<lambda>ob. (id_of ob, fields_of ob)) (objects s2) ! 0 = (''A'', [Some 4, Some 7, None]) \<and>
     root s2 = Some 0 \<and>
     nextFree s2 = 10 \<and>
     map (\<lambda>ob. (id_of ob, addr ob)) (objects s3) = [(''A'', 0), (''B'', 4), (''C'', 7)]"
proof -
  let ?s0 = "init_state makeDefaultScenario"
  let ?p = "prepareCompaction (markReachable (sc_objects makeDefaultScenario) (Some 2)) 36 (Some 2)"
  let ?s1 = "(pushHistory ?s0)\<lparr>objects := markReachable (sc_objects makeDefaultScenario) (Some 2),
               phase := Mark\<rparr>"
  let ?s2 = "(pushHistory ?s1)\<lparr>objects := p_objects ?p, mapping := p_oldToNew ?p,
               root := p_newRoot ?p, nextFree := p_nextFree ?p, phase := Prepare\<rparr>"
  obtain objs3 where c: "crunch (p_objects ?p) (p_oldToNew ?p) = Inr objs3"
    and o3: "map (\<lambda>ob. (id_of ob, addr ob)) objs3 = [(''A'', 0), (''B'', 4), (''C'', 7)]"
    using default_crunch by simp
  let ?s3 = "(pushHistory ?s2)\<lparr>objects := objs3, phase := Crunch\<rparr>"
  have m: "doMark ?s0 = Inr ?s1"
    using doMark_Idle[of ?s0] by (simp add: init_default)
  have p: "doPrepare ?s1 = Inr ?s2"
    using doPrepare_Mark[of ?s1] by (simp add: init_default pushHistory_def)
  have k: "doCrunch ?s2 = Inr ?s3"
    using doCrunch_Prepare[of ?s2 objs3] c by (simp add: pushHistory_def)
  have i: "map (\<lambda>ob. (id_of ob, addr ob, size_of ob, fields_of ob)) (objects ?s0) =
       [(''A'', 2, 4, [Some 8, Some 14, None]), (''B'', 8, 3, [Some 14, None]),
        (''C'', 14, 3, [None, None]), (''D'', 22, 5, [None, None, None, None])]"
    by (simp add: init_default(1)) (simp add: makeDefaultScenario_def)
  have a1: "map (\<lambda>ob. (id_of ob, marked ob)) (objects ?s1) =
       [(''A'', True), (''B'', True), (''C'', True), (''D'', False)]"
    by (simp add: default_mark)
  have a2: "map_entries (mapping ?s2) = [(2, 0), (8, 4), (14, 7)]"
    "map (\<lambda>ob. (id_of ob, fields_of ob)) (objects ?s2) ! 0 = (''A'', [Some 4, Some 7, None])"
    "root ?s2 = Some 0" "nextFree ?s2 = 10"
    by (simp_all add: default_prepare default_entries)
  have a3: "map (\<lambda>ob. (id_of ob, addr ob)) (objects ?s3) = [(''A'', 0), (''B'', 4), (''C'', 7)]"
    using o3 by simp
  show ?thesis
    by (rule exI[of _ ?s1], rule exI[of _ ?s2], rule exI[of _ ?s3], intro conjI)
      (rule m p k init_default(2) init_default(4) i a1 a2 a3)+
qed

end
